theory Spec2Isabelle
  imports Complex_Main "HOL-Library.Word"
begin

unbundle bit_operations_syntax

section \<open>Values, keys and operation types\<close>

text \<open>
  The reactivity core of \<^verbatim>\<open>packages/reactivity/src\<close> (\<^verbatim>\<open>dep.ts\<close>, \<^verbatim>\<open>debug.ts\<close>,
  \<^verbatim>\<open>computed.ts\<close>) keeps a mutable graph of \<^verbatim>\<open>Dep\<close>, \<^verbatim>\<open>Link\<close> and subscriber objects.
  Objects are addressed by natural numbers; a JavaScript reference always points to an
  object, so every heap is a total function and \<^verbatim>\<open>undefined\<close> is \<open>None\<close>.
  The state also holds the module-level variables and the lines written to the console.

  A JavaScript number is \<open>NaN\<close>, an infinity, or a finite value; the finite values of
  doubles are reals, and the comparison \<^verbatim>\<open>>=\<close> on doubles is the comparison of these
  reals (false as soon as one side is \<open>NaN\<close>).
\<close>

datatype jsnum = NaN | NegInf | Fin real | PosInf

fun js_ge :: "jsnum \<Rightarrow> jsnum \<Rightarrow> bool" where
  "js_ge NaN _ = False"
| "js_ge _ NaN = False"
| "js_ge PosInf _ = True"
| "js_ge _ NegInf = True"
| "js_ge (Fin x) (Fin y) = (y \<le> x)"
| "js_ge (Fin x) PosInf = False"
| "js_ge NegInf _ = False"

text \<open>
  The values that occur as property keys and as the new value of a \<^verbatim>\<open>length\<close> write:
  \<^verbatim>\<open>undefined\<close>, strings, symbols (by identity) and numbers.
\<close>

datatype jsval = Undefined | Str string | Sym nat | Num jsnum

datatype error = TypeError | Error string | Thrown nat

definition isSymbol :: "jsval \<Rightarrow> bool" where
  "isSymbol v = (case v of Sym _ \<Rightarrow> True | _ \<Rightarrow> False)"

text \<open>
  \<^verbatim>\<open>ToNumber\<close> of the language: it throws a \<^verbatim>\<open>TypeError\<close> on a symbol. The numeric value
  of a string (\<^verbatim>\<open>StringToNumber\<close>) is a built-in of the language and a parameter here.
\<close>

definition ToNumber :: "(string \<Rightarrow> jsnum) \<Rightarrow> jsval \<Rightarrow> error + jsnum" where
  "ToNumber str_num v =
     (case v of
        Undefined \<Rightarrow> Inr NaN
      | Str s \<Rightarrow> Inr (str_num s)
      | Sym _ \<Rightarrow> Inl TypeError
      | Num n \<Rightarrow> Inr n)"

datatype TrackOpTypes = GET | HAS | ITERATE

datatype TriggerOpTypes = SET | ADD | DELETE | CLEAR

datatype optype = TrackOp TrackOpTypes | TriggerOp TriggerOpTypes

datatype tkind = PlainObject | ArrayObject | MapObject | SetObject

datatype target = Target (obj_id: nat) (obj_kind: tkind)

text \<open>
  A target is an object with its identity and its kind; \<^verbatim>\<open>isArray\<close> and \<^verbatim>\<open>isMap\<close> of
  \<^verbatim>\<open>@vue/shared\<close> ask for the kind.
\<close>

definition isArray :: "target \<Rightarrow> bool" where
  "isArray t = (obj_kind t = ArrayObject)"

definition isMap :: "target \<Rightarrow> bool" where
  "isMap t = (obj_kind t = MapObject)"

definition ITERATE_KEY :: jsval where
  "ITERATE_KEY = Sym 0"

definition MAP_KEY_ITERATE_KEY :: jsval where
  "MAP_KEY_ITERATE_KEY = Sym 1"

record DebuggerEventExtraInfo =
  dbg_target :: target
  dbg_type :: optype
  dbg_key :: jsval
  dbg_newValue :: jsval
  dbg_oldValue :: jsval
  dbg_oldTarget :: "nat option"

text \<open>\<^verbatim>\<open>extend({ effect: sub }, debugInfo)\<close>: the event handed to a debug hook.\<close>

record DebuggerEvent =
  effect :: nat
  info :: "DebuggerEventExtraInfo option"

definition extend_event :: "nat \<Rightarrow> DebuggerEventExtraInfo option \<Rightarrow> DebuggerEvent" where
  "extend_event a debugInfo = \<lparr>effect = a, info = debugInfo\<rparr>"

section \<open>The object graph\<close>

text \<open>
  The version counters are JavaScript numbers that start at 0 and only change by
  \<^verbatim>\<open>++\<close> and by the sentinel \<open>-1\<close>; on such integers (below \<open>2 ^ 53\<close>) the arithmetic
  of doubles is exact, and they are integers here. Flags are the 32-bit integers of the
  bitwise operators.
\<close>

record Link =
  dep :: nat
  sub :: nat
  version :: int
  nextDep :: "nat option"
  prevDep :: "nat option"
  nextSub :: "nat option"
  prevSub :: "nat option"
  prevActiveLink :: "nat option"

record Dep =
  dep_version :: int
  activeLink :: "nat option"
  subs :: "nat option"
  computed :: "nat option"

text \<open>
  A subscriber object: an effect or a \<^verbatim>\<open>ComputedRefImpl\<close> (\<open>isComputedRefImpl\<close> is the
  answer of \<^verbatim>\<open>instanceof ComputedRefImpl\<close>). Functions stored in fields (debug hooks,
  getter, setter) are named by numbers and run by the environment below.
\<close>

record Subscriber =
  deps :: "nat option"
  flags :: "32 word"
  onTrack :: "nat option"
  onTrigger :: "nat option"
  isComputedRefImpl :: bool
  fn :: nat
  setter :: "nat option"
  isSSR :: bool
  isReadonly :: bool

record state =
  linkH :: "nat \<Rightarrow> Link"
  nextLinkId :: nat
  depH :: "nat \<Rightarrow> Dep"
  nextDepId :: nat
  subH :: "nat \<Rightarrow> Subscriber"
  nextSubId :: nat
  activeSub :: "nat option"
  shouldTrack :: bool
  globalVersion :: int
  targetMap :: "target \<Rightarrow> (jsval \<times> nat) list option"
  triggerEventInfos :: "DebuggerEventExtraInfo list"
  console :: "string list"

datatype 'a completion = Normal 'a | Throw error

text \<open>
  What the modules import from files that are not modelled here, and the functions the
  user supplies, are parameters: the build flag \<^verbatim>\<open>__DEV__\<close>, the \<^verbatim>\<open>EffectFlags\<close> bits,
  \<^verbatim>\<open>startBatch\<close>, \<^verbatim>\<open>endBatch\<close> and the subscribers' \<^verbatim>\<open>notify()\<close> of \<^verbatim>\<open>effect.ts\<close>,
  \<^verbatim>\<open>warn\<close> of \<^verbatim>\<open>warning.ts\<close>, \<^verbatim>\<open>isIntegerKey\<close> of \<^verbatim>\<open>@vue/shared\<close>, the constructor of
  the base class \<^verbatim>\<open>Computed\<close>, and the debug hooks and setters. Each of them may change
  the whole state and may throw.
\<close>

record env =
  DEV :: bool
  TRACKING :: "32 word"
  NOTIFIED :: "32 word"
  DIRTY :: "32 word"
  startBatch :: "state \<Rightarrow> unit completion \<times> state"
  endBatch :: "state \<Rightarrow> unit completion \<times> state"
  sub_notify :: "nat \<Rightarrow> state \<Rightarrow> unit completion \<times> state"
  call_hook :: "nat \<Rightarrow> DebuggerEvent \<Rightarrow> state \<Rightarrow> unit completion \<times> state"
  call_setter :: "nat \<Rightarrow> jsval \<Rightarrow> state \<Rightarrow> unit completion \<times> state"
  warn :: "string \<Rightarrow> state \<Rightarrow> unit completion \<times> state"
  str_num :: "string \<Rightarrow> jsnum"
  isIntegerKey :: "jsval \<Rightarrow> bool"
  super_Computed :: "nat \<Rightarrow> Subscriber"

definition upd_link :: "nat \<Rightarrow> (Link \<Rightarrow> Link) \<Rightarrow> state \<Rightarrow> state" where
  "upd_link l f s = s\<lparr>linkH := (linkH s)(l := f (linkH s l))\<rparr>"

definition upd_dep :: "nat \<Rightarrow> (Dep \<Rightarrow> Dep) \<Rightarrow> state \<Rightarrow> state" where
  "upd_dep d f s = s\<lparr>depH := (depH s)(d := f (depH s d))\<rparr>"

definition upd_sub :: "nat \<Rightarrow> (Subscriber \<Rightarrow> Subscriber) \<Rightarrow> state \<Rightarrow> state" where
  "upd_sub a f s = s\<lparr>subH := (subH s)(a := f (subH s a))\<rparr>"

section \<open>dep.ts\<close>

text \<open>
  \<^verbatim>\<open>function addSub(link)\<close>: make \<open>l\<close> the tail of the subscriber list of its dep.
\<close>

definition addSub :: "nat \<Rightarrow> state \<Rightarrow> state" where
  "addSub l s =
     (let currentTail = subs (depH s (dep (linkH s l)));
          s1 = (if currentTail \<noteq> Some l then
                  (let s' = upd_link l (\<lambda>x. x\<lparr>prevSub := currentTail\<rparr>) s
                   in case currentTail of
                        Some t \<Rightarrow> upd_link t (\<lambda>x. x\<lparr>nextSub := Some l\<rparr>) s'
                      | None \<Rightarrow> s')
                else s)
      in upd_dep (dep (linkH s1 l)) (\<lambda>x. x\<lparr>subs := Some l\<rparr>) s1)"

text \<open>
  \<^verbatim>\<open>for (let l = computed.deps; l !== undefined; l = l.nextDep) addSub(l)\<close>. The loop
  does not return on a cyclic chain: not returning is \<open>None\<close>.
\<close>

partial_function (option) addSub_loop :: "nat option \<Rightarrow> state \<Rightarrow> state option" where
  "addSub_loop l s =
     (case l of
        None \<Rightarrow> Some s
      | Some x \<Rightarrow> addSub_loop (nextDep (linkH (addSub x s) x)) (addSub x s))"

text \<open>
  The body of \<^verbatim>\<open>Dep.track\<close> between the guard and the debug hook: find or make the
  link between \<open>this\<close> and the active subscriber \<open>a\<close>. A fresh object literal gets the
  next unused address.
\<close>

definition new_link :: "nat \<Rightarrow> nat \<Rightarrow> state \<Rightarrow> state" where
  "new_link this a s =
     s\<lparr>linkH := (linkH s)(nextLinkId s :=
          \<lparr>dep = this, sub = a, version = dep_version (depH s this),
           nextDep = None, prevDep = deps (subH s a),
           nextSub = None, prevSub = None, prevActiveLink = None\<rparr>),
       nextLinkId := nextLinkId s + 1\<rparr>"

text \<open>
  The first branch (\<^verbatim>\<open>link === undefined || link.sub !== activeSub\<close>): a new link is
  appended to the dependency list of \<open>a\<close> and, when \<open>a\<close> is tracking, to the
  subscriber list of the dep; a computed dep that had no subscriber is switched to
  tracking first and its own links are subscribed.
\<close>

definition track_new :: "env \<Rightarrow> nat \<Rightarrow> nat \<Rightarrow> state \<Rightarrow> (nat completion \<times> state) option" where
  "track_new e this a s =
     (let l = nextLinkId s;
          s1 = new_link this a s;
          s2 = upd_dep this (\<lambda>x. x\<lparr>activeLink := Some l\<rparr>) s1;
          s3 = (case deps (subH s2 a) of
                  Some t \<Rightarrow> upd_link t (\<lambda>x. x\<lparr>nextDep := Some l\<rparr>) s2
                | None \<Rightarrow> s2);
          s4 = upd_sub a (\<lambda>x. x\<lparr>deps := Some l\<rparr>) s3
      in if flags (subH s4 a) AND TRACKING e \<noteq> 0 then
           (case (case computed (depH s4 this) of
                    Some c \<Rightarrow>
                      if subs (depH s4 this) = None then
                        (let s5 = upd_sub c (\<lambda>x. x\<lparr>flags := flags x OR (TRACKING e OR DIRTY e)\<rparr>) s4
                         in addSub_loop (deps (subH s5 c)) s5)
                      else Some s4
                  | None \<Rightarrow> Some s4) of
              None \<Rightarrow> None
            | Some s6 \<Rightarrow> Some (Normal l, addSub l s6))
         else Some (Normal l, s4))"

text \<open>
  The second branch (\<^verbatim>\<open>link.version === -1\<close>): the link is brought in sync and, when it
  has a successor, moved to the tail. \<^verbatim>\<open>activeSub.deps!.nextDep = link\<close> throws a
  \<^verbatim>\<open>TypeError\<close> when \<^verbatim>\<open>activeSub.deps\<close> is \<^verbatim>\<open>undefined\<close>.
\<close>

definition track_reuse :: "nat \<Rightarrow> nat \<Rightarrow> nat \<Rightarrow> state \<Rightarrow> nat completion \<times> state" where
  "track_reuse this a l s =
     (let s1 = upd_link l (\<lambda>x. x\<lparr>version := dep_version (depH s this)\<rparr>) s
      in case nextDep (linkH s1 l) of
           None \<Rightarrow> (Normal l, s1)
         | Some n \<Rightarrow>
             (let s2 = upd_link n (\<lambda>x. x\<lparr>prevDep := prevDep (linkH s1 l)\<rparr>) s1;
                  s3 = (case prevDep (linkH s2 l) of
                          Some p \<Rightarrow> upd_link p (\<lambda>x. x\<lparr>nextDep := nextDep (linkH s2 l)\<rparr>) s2
                        | None \<Rightarrow> s2);
                  s4 = upd_link l (\<lambda>x. x\<lparr>prevDep := deps (subH s3 a)\<rparr>) s3;
                  s5 = upd_link l (\<lambda>x. x\<lparr>nextDep := None\<rparr>) s4
              in case deps (subH s5 a) of
                   None \<Rightarrow> (Throw TypeError, s5)
                 | Some t \<Rightarrow>
                     (let s6 = upd_link t (\<lambda>x. x\<lparr>nextDep := Some l\<rparr>) s5
                      in (Normal l, upd_sub a (\<lambda>x. x\<lparr>deps := Some l\<rparr>) s6))))"

definition track_link :: "env \<Rightarrow> nat \<Rightarrow> nat \<Rightarrow> state \<Rightarrow> (nat completion \<times> state) option" where
  "track_link e this a s =
     (case activeLink (depH s this) of
        None \<Rightarrow> track_new e this a s
      | Some l \<Rightarrow>
          if sub (linkH s l) \<noteq> a then track_new e this a s
          else if version (linkH s l) = - 1 then Some (track_reuse this a l s)
          else Some (Normal l, s))"

text \<open>
  The end of \<^verbatim>\<open>Dep.track\<close>: in a development build a subscriber's \<^verbatim>\<open>onTrack\<close> hook is
  called, then the link is returned.
\<close>

definition track_hook :: "env \<Rightarrow> DebuggerEventExtraInfo option \<Rightarrow> nat \<Rightarrow> nat \<Rightarrow> state
    \<Rightarrow> nat option completion \<times> state" where
  "track_hook e debugInfo a l s =
     (case (if DEV e then onTrack (subH s a) else None) of
        Some h \<Rightarrow>
          (case call_hook e h (extend_event a debugInfo) s of
             (Throw x, s') \<Rightarrow> (Throw x, s')
           | (Normal _, s') \<Rightarrow> (Normal (Some l), s'))
      | None \<Rightarrow> (Normal (Some l), s))"

definition Dep_track :: "env \<Rightarrow> DebuggerEventExtraInfo option \<Rightarrow> nat \<Rightarrow> state
    \<Rightarrow> (nat option completion \<times> state) option" where
  "Dep_track e debugInfo this s =
     (case activeSub s of
        None \<Rightarrow> Some (Normal None, s)
      | Some a \<Rightarrow>
          if \<not> shouldTrack s then Some (Normal None, s)
          else
            (case track_link e this a s of
               None \<Rightarrow> None
             | Some (Throw x, s1) \<Rightarrow> Some (Throw x, s1)
             | Some (Normal l, s1) \<Rightarrow> Some (track_hook e debugInfo a l s1)))"

text \<open>
  The loop of \<^verbatim>\<open>Dep.notify\<close> over the subscriber list, from the tail along \<^verbatim>\<open>prevSub\<close>.
  The hook and \<^verbatim>\<open>notify()\<close> of a subscriber may change the list that is walked.
\<close>

definition trigger_hook :: "env \<Rightarrow> DebuggerEventExtraInfo option \<Rightarrow> nat \<Rightarrow> state
    \<Rightarrow> unit completion \<times> state" where
  "trigger_hook e debugInfo l s =
     (case (if DEV e then onTrigger (subH s (sub (linkH s l))) else None) of
        Some h \<Rightarrow>
          if flags (subH s (sub (linkH s l))) AND NOTIFIED e = 0
          then call_hook e h (extend_event (sub (linkH s l)) debugInfo) s
          else (Normal (), s)
      | None \<Rightarrow> (Normal (), s))"

partial_function (option) notify_loop :: "env \<Rightarrow> DebuggerEventExtraInfo option \<Rightarrow> nat option
    \<Rightarrow> state \<Rightarrow> (unit completion \<times> state) option" where
  "notify_loop e debugInfo link s =
     (case link of
        None \<Rightarrow> Some (Normal (), s)
      | Some l \<Rightarrow>
          (case trigger_hook e debugInfo l s of
             (Throw x, s1) \<Rightarrow> Some (Throw x, s1)
           | (Normal _, s1) \<Rightarrow>
               (case sub_notify e (sub (linkH s1 l)) s1 of
                  (Throw x, s2) \<Rightarrow> Some (Throw x, s2)
                | (Normal _, s2) \<Rightarrow> notify_loop e debugInfo (prevSub (linkH s2 l)) s2)))"

text \<open>
  \<^verbatim>\<open>try { ... } finally { endBatch() }\<close>: \<^verbatim>\<open>endBatch\<close> runs on every exit of the loop;
  what it throws replaces the completion of the loop.
\<close>

definition Dep_notify :: "env \<Rightarrow> DebuggerEventExtraInfo option \<Rightarrow> nat \<Rightarrow> state
    \<Rightarrow> (unit completion \<times> state) option" where
  "Dep_notify e debugInfo this s =
     (if \<not> (case activeSub s of None \<Rightarrow> False | Some a \<Rightarrow> isComputedRefImpl (subH s a)) then
        (case startBatch e s of
           (Throw x, s1) \<Rightarrow> Some (Throw x, s1)
         | (Normal _, s1) \<Rightarrow>
             (case notify_loop e debugInfo (subs (depH s1 this)) s1 of
                None \<Rightarrow> None
              | Some (r, s2) \<Rightarrow>
                  (case endBatch e s2 of
                     (Throw x, s3) \<Rightarrow> Some (Throw x, s3)
                   | (Normal _, s3) \<Rightarrow> Some (r, s3))))
      else Some (Normal (), s))"

definition Dep_trigger :: "env \<Rightarrow> DebuggerEventExtraInfo option \<Rightarrow> nat \<Rightarrow> state
    \<Rightarrow> (unit completion \<times> state) option" where
  "Dep_trigger e debugInfo this s =
     (let s1 = upd_dep this (\<lambda>x. x\<lparr>dep_version := dep_version x + 1\<rparr>) s;
          s2 = s1\<lparr>globalVersion := globalVersion s1 + 1\<rparr>
      in Dep_notify e debugInfo this s2)"

text \<open>
  The registry \<^verbatim>\<open>targetMap\<close>: a \<^verbatim>\<open>Map\<close> keeps its keys in insertion order, so the map of a
  target is an association list. \<^verbatim>\<open>new Dep()\<close> takes the next unused address.
\<close>

definition new_Dep :: "state \<Rightarrow> state" where
  "new_Dep s =
     s\<lparr>depH := (depH s)(nextDepId s :=
          \<lparr>dep_version = 0, activeLink = None, subs = None, computed = None\<rparr>),
       nextDepId := nextDepId s + 1\<rparr>"

definition track_info :: "env \<Rightarrow> target \<Rightarrow> TrackOpTypes \<Rightarrow> jsval \<Rightarrow> DebuggerEventExtraInfo option" where
  "track_info e tgt ty key =
     (if DEV e then
        Some \<lparr>dbg_target = tgt, dbg_type = TrackOp ty, dbg_key = key,
              dbg_newValue = Undefined, dbg_oldValue = Undefined, dbg_oldTarget = None\<rparr>
      else None)"

definition track :: "env \<Rightarrow> target \<Rightarrow> TrackOpTypes \<Rightarrow> jsval \<Rightarrow> state
    \<Rightarrow> (unit completion \<times> state) option" where
  "track e tgt ty key s =
     (if shouldTrack s \<and> activeSub s \<noteq> None then
        (let depsMap = (case targetMap s tgt of Some m \<Rightarrow> m | None \<Rightarrow> []);
             s1 = (case targetMap s tgt of
                     Some m \<Rightarrow> s
                   | None \<Rightarrow> s\<lparr>targetMap := (targetMap s)(tgt := Some [])\<rparr>);
             d = (case map_of depsMap key of Some d \<Rightarrow> d | None \<Rightarrow> nextDepId s1);
             s2 = (case map_of depsMap key of
                     Some d \<Rightarrow> s1
                   | None \<Rightarrow>
                       (new_Dep s1)\<lparr>targetMap :=
                          (targetMap s1)(tgt := Some (depsMap @ [(key, nextDepId s1)]))\<rparr>)
         in case Dep_track e (track_info e tgt ty key) d s2 of
              None \<Rightarrow> None
            | Some (Throw x, s3) \<Rightarrow> Some (Throw x, s3)
            | Some (Normal _, s3) \<Rightarrow> Some (Normal (), s3))
      else Some (Normal (), s))"

text \<open>
  The test of the \<^verbatim>\<open>forEach\<close> callback of a \<^verbatim>\<open>length\<close> write:
  \<^verbatim>\<open>key === 'length' || (!isSymbol(key) && key >= newLength)\<close>. The comparison converts
  the key to a number; it is only reached for a key that is no symbol.
\<close>

definition key_ge :: "env \<Rightarrow> jsval \<Rightarrow> jsnum \<Rightarrow> bool" where
  "key_ge e k n = (case ToNumber (str_num e) k of Inl _ \<Rightarrow> False | Inr x \<Rightarrow> js_ge x n)"

definition length_hit :: "env \<Rightarrow> jsnum \<Rightarrow> jsval \<Rightarrow> bool" where
  "length_hit e newLength k = (k = Str ''length'' \<or> (\<not> isSymbol k \<and> key_ge e k newLength))"

text \<open>\<^verbatim>\<open>const push = (dep) => dep && deps.push(dep)\<close> on \<^verbatim>\<open>depsMap.get(k)\<close>.\<close>

definition push :: "(jsval \<times> nat) list \<Rightarrow> jsval \<Rightarrow> nat list" where
  "push depsMap k = (case map_of depsMap k of Some d \<Rightarrow> [d] | None \<Rightarrow> [])"

definition collect_deps :: "env \<Rightarrow> (jsval \<times> nat) list \<Rightarrow> target \<Rightarrow> TriggerOpTypes \<Rightarrow> jsval
    \<Rightarrow> jsval \<Rightarrow> error + nat list" where
  "collect_deps e depsMap tgt ty key newValue =
     (if ty = CLEAR then Inr (map snd depsMap)
      else if key = Str ''length'' \<and> isArray tgt then
        (case ToNumber (str_num e) newValue of
           Inl x \<Rightarrow> Inl x
         | Inr newLength \<Rightarrow> Inr (map snd (filter (\<lambda>kd. length_hit e newLength (fst kd)) depsMap)))
      else
        Inr ((if key \<noteq> Undefined then push depsMap key else []) @
             (case ty of
                ADD \<Rightarrow>
                  if \<not> isArray tgt then
                    push depsMap ITERATE_KEY @
                    (if isMap tgt then push depsMap MAP_KEY_ITERATE_KEY else [])
                  else if isIntegerKey e key then push depsMap (Str ''length'')
                  else []
              | DELETE \<Rightarrow>
                  if \<not> isArray tgt then
                    push depsMap ITERATE_KEY @
                    (if isMap tgt then push depsMap MAP_KEY_ITERATE_KEY else [])
                  else []
              | SET \<Rightarrow> if isMap tgt then push depsMap ITERATE_KEY else []
              | CLEAR \<Rightarrow> [])))"

text \<open>\<^verbatim>\<open>for (const dep of deps) dep.trigger(...)\<close>, stopping at the first throw.\<close>

fun trigger_all :: "env \<Rightarrow> DebuggerEventExtraInfo option \<Rightarrow> nat list \<Rightarrow> state
    \<Rightarrow> (unit completion \<times> state) option" where
  "trigger_all e debugInfo [] s = Some (Normal (), s)"
| "trigger_all e debugInfo (d # ds) s =
     (case Dep_trigger e debugInfo d s of
        None \<Rightarrow> None
      | Some (Throw x, s1) \<Rightarrow> Some (Throw x, s1)
      | Some (Normal _, s1) \<Rightarrow> trigger_all e debugInfo ds s1)"

definition trigger_info :: "env \<Rightarrow> target \<Rightarrow> TriggerOpTypes \<Rightarrow> jsval \<Rightarrow> jsval \<Rightarrow> jsval
    \<Rightarrow> nat option \<Rightarrow> DebuggerEventExtraInfo option" where
  "trigger_info e tgt ty key newValue oldValue oldTarget =
     (if DEV e then
        Some \<lparr>dbg_target = tgt, dbg_type = TriggerOp ty, dbg_key = key,
              dbg_newValue = newValue, dbg_oldValue = oldValue, dbg_oldTarget = oldTarget\<rparr>
      else None)"

text \<open>
  The end of \<^verbatim>\<open>trigger\<close>: \<^verbatim>\<open>startBatch()\<close>, the loop over the collected deps,
  \<^verbatim>\<open>endBatch()\<close>. There is no \<^verbatim>\<open>finally\<close> here: a throw leaves the batch open.
\<close>

definition run_triggers :: "env \<Rightarrow> DebuggerEventExtraInfo option \<Rightarrow> nat list \<Rightarrow> state
    \<Rightarrow> (unit completion \<times> state) option" where
  "run_triggers e debugInfo ds s =
     (case startBatch e s of
        (Throw x, s1) \<Rightarrow> Some (Throw x, s1)
      | (Normal _, s1) \<Rightarrow>
          (case trigger_all e debugInfo ds s1 of
             None \<Rightarrow> None
           | Some (Throw x, s2) \<Rightarrow> Some (Throw x, s2)
           | Some (Normal _, s2) \<Rightarrow> Some (endBatch e s2)))"

definition trigger :: "env \<Rightarrow> target \<Rightarrow> TriggerOpTypes \<Rightarrow> jsval \<Rightarrow> jsval \<Rightarrow> jsval \<Rightarrow> nat option
    \<Rightarrow> state \<Rightarrow> (unit completion \<times> state) option" where
  "trigger e tgt ty key newValue oldValue oldTarget s =
     (case targetMap s tgt of
        None \<Rightarrow> Some (Normal (), s\<lparr>globalVersion := globalVersion s + 1\<rparr>)
      | Some depsMap \<Rightarrow>
          (case collect_deps e depsMap tgt ty key newValue of
             Inl x \<Rightarrow> Some (Throw x, s)
           | Inr ds \<Rightarrow>
               run_triggers e (trigger_info e tgt ty key newValue oldValue oldTarget) ds s))"

section \<open>debug.ts\<close>

definition debug_onTrack :: "env \<Rightarrow> nat \<Rightarrow> DebuggerEventExtraInfo \<Rightarrow> state
    \<Rightarrow> unit completion \<times> state" where
  "debug_onTrack e a debugInfo s =
     (if \<not> DEV e then
        (Throw (Error ''Internal error: onTrack should be called only in development.''), s)
      else
        (case onTrack (subH s a) of
           Some h \<Rightarrow> call_hook e h (extend_event a (Some debugInfo)) s
         | None \<Rightarrow> (Normal (), s)))"

text \<open>
  \<^verbatim>\<open>triggerEventInfos[triggerEventInfos.length - 1]\<close> is \<^verbatim>\<open>undefined\<close> on the empty array.
\<close>

definition debug_onTrigger :: "env \<Rightarrow> nat \<Rightarrow> state \<Rightarrow> unit completion \<times> state" where
  "debug_onTrigger e a s =
     (if \<not> DEV e then
        (Throw (Error ''Internal error: onTrigger should be called only in development.''), s)
      else
        (case onTrigger (subH s a) of
           Some h \<Rightarrow>
             call_hook e h
               (extend_event a
                  (if triggerEventInfos s = [] then None else Some (last (triggerEventInfos s)))) s
         | None \<Rightarrow> (Normal (), s)))"

section \<open>computed.ts\<close>

datatype getterOrOptions = GetterFn nat | Options nat nat

record DebuggerOptions =
  opt_onTrack :: "nat option"
  opt_onTrigger :: "nat option"

text \<open>
  \<^verbatim>\<open>new ComputedRefImpl(getter, setter, isSSR)\<close>: the base constructor \<^verbatim>\<open>super(fn)\<close> makes
  the object, the constructor stores its parameter properties and
  \<^verbatim>\<open>__v_isReadonly = !setter\<close>.
\<close>

definition new_ComputedRefImpl :: "env \<Rightarrow> nat \<Rightarrow> nat option \<Rightarrow> bool \<Rightarrow> state \<Rightarrow> nat \<times> state" where
  "new_ComputedRefImpl e getter st ssr s =
     (nextSubId s,
      s\<lparr>subH := (subH s)(nextSubId s :=
           (super_Computed e getter)
             \<lparr>onTrack := None, onTrigger := None, isComputedRefImpl := True,
              fn := getter, setter := st, isSSR := ssr, isReadonly := (st = None)\<rparr>),
        nextSubId := nextSubId s + 1\<rparr>)"

definition computed_ref :: "env \<Rightarrow> getterOrOptions \<Rightarrow> DebuggerOptions option \<Rightarrow> bool \<Rightarrow> state
    \<Rightarrow> nat \<times> state" where
  "computed_ref e gopts debugOptions ssr s =
     (let getter = (case gopts of GetterFn g \<Rightarrow> g | Options g _ \<Rightarrow> g);
          st = (case gopts of GetterFn _ \<Rightarrow> None | Options _ f \<Rightarrow> Some f);
          (cRef, s1) = new_ComputedRefImpl e getter st ssr s
      in case debugOptions of
           Some opts \<Rightarrow>
             if DEV e \<and> \<not> ssr then
               (cRef, upd_sub cRef (\<lambda>x. x\<lparr>onTrack := opt_onTrack opts,
                                          onTrigger := opt_onTrigger opts\<rparr>) s1)
             else (cRef, s1)
         | None \<Rightarrow> (cRef, s1))"

text \<open>The setter of \<^verbatim>\<open>ComputedRefImpl.value\<close>.\<close>

definition set_value :: "env \<Rightarrow> nat \<Rightarrow> jsval \<Rightarrow> state \<Rightarrow> unit completion \<times> state" where
  "set_value e c newValue s =
     (case setter (subH s c) of
        Some f \<Rightarrow> call_setter e f newValue s
      | None \<Rightarrow>
          if DEV e then warn e ''Write operation failed: computed value is readonly'' s
          else (Normal (), s))"

section \<open>Lists in the object graph\<close>

text \<open>
  A segment of a doubly linked list, given its pointer functions: \<open>p\<close> is the
  predecessor of the first node and \<open>q\<close> the successor of the last one.
\<close>

fun seg :: "(nat \<Rightarrow> nat option) \<Rightarrow> (nat \<Rightarrow> nat option) \<Rightarrow> nat option \<Rightarrow> nat list
    \<Rightarrow> nat option \<Rightarrow> bool" where
  "seg P N p [] q = True"
| "seg P N p (x # xs) q =
     (P x = p \<and> N x = (case xs of [] \<Rightarrow> q | y # _ \<Rightarrow> Some y) \<and> seg P N (Some x) xs q)"

text \<open>
  The dependency list of a running subscriber \<open>a\<close> is \<open>ls\<close>, head first: the links are
  distinct, doubly linked by \<^verbatim>\<open>prevDep\<close> and \<^verbatim>\<open>nextDep\<close>, and \<^verbatim>\<open>a.deps\<close> points to the
  tail (where \<^verbatim>\<open>Dep.track\<close> appends).
\<close>

definition dep_list :: "state \<Rightarrow> nat \<Rightarrow> nat list \<Rightarrow> bool" where
  "dep_list s a ls =
     (distinct ls \<and>
      seg (\<lambda>x. prevDep (linkH s x)) (\<lambda>x. nextDep (linkH s x)) None ls None \<and>
      deps (subH s a) = (if ls = [] then None else Some (last ls)))"

text \<open>
  The nodes met from \<open>st\<close> along a pointer function until \<^verbatim>\<open>undefined\<close>: the links the
  loop \<^verbatim>\<open>for (let l = computed.deps; l !== undefined; l = l.nextDep)\<close> visits.
\<close>

fun chain :: "(nat \<Rightarrow> nat option) \<Rightarrow> nat option \<Rightarrow> nat list \<Rightarrow> bool" where
  "chain N st [] = (st = None)"
| "chain N st (x # xs) = (st = Some x \<and> chain N (N x) xs)"

text \<open>
  \<open>reach_in s P st x\<close>: link \<open>x\<close> is met from \<open>st\<close> along \<^verbatim>\<open>prevSub\<close>, through links of
  \<open>P\<close> only. A link is attached when it is met in this way from the tail \<^verbatim>\<open>subs\<close> of
  its own dep: \<^verbatim>\<open>Dep.notify\<close> will then reach its subscriber.
\<close>

inductive reach_in :: "state \<Rightarrow> nat set \<Rightarrow> nat option \<Rightarrow> nat \<Rightarrow> bool"
  for s :: state and P :: "nat set" where
  here: "x \<in> P \<Longrightarrow> reach_in s P (Some x) x"
| step: "y \<in> P \<Longrightarrow> reach_in s P (prevSub (linkH s y)) x \<Longrightarrow> reach_in s P (Some y) x"

definition attached :: "state \<Rightarrow> nat \<Rightarrow> bool" where
  "attached s x = reach_in s UNIV (subs (depH s (dep (linkH s x)))) x"

definition all_attached :: "state \<Rightarrow> nat set \<Rightarrow> bool" where
  "all_attached s P = (\<forall>p\<in>P. reach_in s P (subs (depH s (dep (linkH s p)))) p)"

section \<open>Example objects\<close>

text \<open>
  Environments and states on which the theorems below are run. \<open>env_prod\<close> is a
  production build whose collaborators do nothing; in \<open>env_dev\<close> the build is a
  development build, \<^verbatim>\<open>warn\<close> writes its message to the console, a subscriber's
  \<^verbatim>\<open>notify()\<close> sets its \<^verbatim>\<open>NOTIFIED\<close> bit and a debug hook writes a line; in
  \<open>env_hostile\<close> every collaborator throws.
\<close>

definition noop :: "state \<Rightarrow> unit completion \<times> state" where
  "noop s = (Normal (), s)"

definition failing :: "nat \<Rightarrow> state \<Rightarrow> unit completion \<times> state" where
  "failing n s = (Throw (Thrown n), s)"

definition say :: "string \<Rightarrow> state \<Rightarrow> unit completion \<times> state" where
  "say m s = (Normal (), s\<lparr>console := console s @ [m]\<rparr>)"

definition mark_notified :: "nat \<Rightarrow> state \<Rightarrow> unit completion \<times> state" where
  "mark_notified a s = (Normal (), upd_sub a (\<lambda>x. x\<lparr>flags := flags x OR 8\<rparr>) s)"

definition index_num :: "string \<Rightarrow> jsnum" where
  "index_num x =
     (if x = ''0'' then Fin 0 else if x = ''1'' then Fin 1 else if x = ''2'' then Fin 2
      else if x = ''3'' then Fin 3 else NaN)"

definition sub_empty :: Subscriber where
  "sub_empty = \<lparr>deps = None, flags = 0, onTrack = None, onTrigger = None,
     isComputedRefImpl = False, fn = 0, setter = None, isSSR = False, isReadonly = False\<rparr>"

definition link_empty :: Link where
  "link_empty = \<lparr>dep = 0, sub = 0, version = 0, nextDep = None, prevDep = None,
     nextSub = None, prevSub = None, prevActiveLink = None\<rparr>"

definition dep_empty :: Dep where
  "dep_empty = \<lparr>dep_version = 0, activeLink = None, subs = None, computed = None\<rparr>"

definition env_prod :: env where
  "env_prod = \<lparr>DEV = False, TRACKING = 4, NOTIFIED = 8, DIRTY = 16,
     startBatch = noop, endBatch = noop, sub_notify = (\<lambda>a. noop),
     call_hook = (\<lambda>h ev. noop), call_setter = (\<lambda>f v. noop), warn = (\<lambda>m. noop),
     str_num = index_num, isIntegerKey = (\<lambda>k. False), super_Computed = (\<lambda>g. sub_empty)\<rparr>"

definition env_dev :: env where
  "env_dev = env_prod\<lparr>DEV := True, sub_notify := mark_notified,
     call_hook := (\<lambda>h ev. say ''hook''), warn := say\<rparr>"

definition env_hostile :: env where
  "env_hostile = \<lparr>DEV = True, TRACKING = 4, NOTIFIED = 8, DIRTY = 16,
     startBatch = failing 1, endBatch = failing 2, sub_notify = (\<lambda>a. failing 3),
     call_hook = (\<lambda>h ev. failing 4), call_setter = (\<lambda>f v. failing 5), warn = (\<lambda>m. failing 6),
     str_num = index_num, isIntegerKey = (\<lambda>k. False), super_Computed = (\<lambda>g. sub_empty)\<rparr>"

definition state_empty :: state where
  "state_empty = \<lparr>linkH = (\<lambda>_. link_empty), nextLinkId = 0, depH = (\<lambda>_. dep_empty),
     nextDepId = 0, subH = (\<lambda>_. sub_empty), nextSubId = 0, activeSub = None,
     shouldTrack = True, globalVersion = 0, targetMap = (\<lambda>_. None),
     triggerEventInfos = [], console = []\<rparr>"

text \<open>
  Dep 0 has one subscriber, the effect 2, through link 0; the active subscriber 1 is a
  \<^verbatim>\<open>ComputedRefImpl\<close>.
\<close>

definition state_in_computed :: state where
  "state_in_computed = state_empty\<lparr>
     linkH := (linkH state_empty)(0 := link_empty\<lparr>dep := 0, sub := 2\<rparr>),
     nextLinkId := 1,
     depH := (depH state_empty)(0 := dep_empty\<lparr>subs := Some 0\<rparr>),
     nextDepId := 1,
     subH := (subH state_empty)(1 := sub_empty\<lparr>isComputedRefImpl := True\<rparr>),
     nextSubId := 3,
     activeSub := Some 1\<rparr>"

text \<open>The same graph with no active subscriber.\<close>

definition state_idle :: state where
  "state_idle = state_in_computed\<lparr>activeSub := None\<rparr>"

text \<open>
  The running effect 1 has read deps 0, 1 and 2 in a former run, through links
  10, 11 and 12, all marked for reuse (version \<open>-1\<close>); dep 1 is at version 5.
\<close>

definition state_rerun :: state where
  "state_rerun = state_empty\<lparr>
     linkH := (linkH state_empty)
       (10 := link_empty\<lparr>dep := 0, sub := 1, version := - 1, nextDep := Some 11\<rparr>,
        11 := link_empty\<lparr>dep := 1, sub := 1, version := - 1, prevDep := Some 10,
                nextDep := Some 12\<rparr>,
        12 := link_empty\<lparr>dep := 2, sub := 1, version := - 1, prevDep := Some 11\<rparr>),
     nextLinkId := 13,
     depH := (depH state_empty)
       (0 := dep_empty\<lparr>activeLink := Some 10\<rparr>,
        1 := dep_empty\<lparr>dep_version := 5, activeLink := Some 11\<rparr>,
        2 := dep_empty\<lparr>activeLink := Some 12\<rparr>),
     nextDepId := 3,
     subH := (subH state_empty)(1 := sub_empty\<lparr>deps := Some 12\<rparr>),
     nextSubId := 2,
     activeSub := Some 1\<rparr>"

text \<open>The same run after dep 1 has been read once: link 11 is in sync with its dep.\<close>

definition state_synced :: state where
  "state_synced = upd_link 11 (\<lambda>x. x\<lparr>version := 5\<rparr>) state_rerun"

text \<open>That state with tracking suspended.\<close>

definition state_synced_paused :: state where
  "state_synced_paused = state_synced\<lparr>shouldTrack := False\<rparr>"

text \<open>The run before any read, with tracking suspended.\<close>

definition state_paused :: state where
  "state_paused = state_rerun\<lparr>shouldTrack := False\<rparr>"

text \<open>Subscriber 1 with both debug hooks installed; one event is pending.\<close>

definition info_a :: DebuggerEventExtraInfo where
  "info_a = \<lparr>dbg_target = Target 7 PlainObject, dbg_type = TriggerOp SET, dbg_key = Str ''a'',
     dbg_newValue = Num (Fin 1), dbg_oldValue = Num (Fin 0), dbg_oldTarget = None\<rparr>"

definition state_hooked :: state where
  "state_hooked = state_empty\<lparr>
     subH := (subH state_empty)(1 := sub_empty\<lparr>onTrack := Some 0, onTrigger := Some 1\<rparr>),
     nextSubId := 2,
     triggerEventInfos := [info_a]\<rparr>"

text \<open>
  A plain object 7 of which only the property \<^verbatim>\<open>a\<close> has been tracked (dep 0, subscribed by
  effect 2), and an array 8 with tracked indices 0 and 2, tracked length and a tracked
  symbol key; the deps 3 to 6 of the array have no subscriber.
\<close>

definition state_obj :: state where
  "state_obj = state_idle\<lparr>targetMap :=
     (targetMap state_idle)(Target 7 PlainObject := Some [(Str ''a'', 0)])\<rparr>"

definition state_array :: state where
  "state_array = state_empty\<lparr>
     nextDepId := 7,
     targetMap := (targetMap state_empty)(Target 8 ArrayObject :=
       Some [(Str ''0'', 3), (Str ''length'', 4), (Str ''2'', 5), (Sym 9, 6)])\<rparr>"

text \<open>
  Dep 0 belongs to the computed 2, which has read deps 5 and 6 (links 20 and 21) and has
  no subscriber yet; dep 5 has another subscriber, 3, through link 40. The running
  effect 1 is tracking and has read nothing so far.
\<close>

definition state_first_read :: state where
  "state_first_read = state_empty\<lparr>
     linkH := (linkH state_empty)
       (20 := link_empty\<lparr>dep := 5, sub := 2, nextDep := Some 21\<rparr>,
        21 := link_empty\<lparr>dep := 6, sub := 2, prevDep := Some 20\<rparr>,
        40 := link_empty\<lparr>dep := 5, sub := 3\<rparr>),
     nextLinkId := 41,
     depH := (depH state_empty)
       (0 := dep_empty\<lparr>computed := Some 2\<rparr>,
        5 := dep_empty\<lparr>subs := Some 40\<rparr>),
     nextDepId := 7,
     subH := (subH state_empty)
       (1 := sub_empty\<lparr>flags := 4\<rparr>,
        2 := sub_empty\<lparr>deps := Some 20, isComputedRefImpl := True\<rparr>),
     nextSubId := 4,
     activeSub := Some 1\<rparr>"

text \<open>
  The same graph where the effect 1 already holds the link 30 to dep 0, in sync, while
  dep 0 has no subscriber: the link is not in the subscriber list of its dep.
\<close>

definition state_stale :: state where
  "state_stale = state_first_read\<lparr>
     linkH := (linkH state_first_read)(30 := link_empty\<lparr>dep := 0, sub := 1\<rparr>),
     depH := (depH state_first_read)(0 := dep_empty\<lparr>activeLink := Some 30, computed := Some 2\<rparr>),
     subH := (subH state_first_read)(1 := sub_empty\<lparr>deps := Some 30, flags := 4\<rparr>)\<rparr>"

section \<open>Dep.notify and Dep.trigger\<close>

text \<open>
  While the active subscriber is a \<^verbatim>\<open>ComputedRefImpl\<close>, \<^verbatim>\<open>Dep.notify\<close> returns normally
  with the state as it was, whatever the environment is: no batch is opened, no debug
  hook and no \<^verbatim>\<open>notify()\<close> of a subscriber is called (each of them could change the
  state or throw), in a development build as in a production build.
\<close>

lemma Dep_notify_suppressed_in_computed:
  assumes "activeSub s = Some c" and "isComputedRefImpl (subH s c)"
  shows "Dep_notify e debugInfo d s = Some (Normal (), s)"
  using assms by (simp add: Dep_notify_def)

lemma Dep_notify_suppressed_in_computed_examples:
  "subs (depH state_in_computed 0) = Some 0 \<and>
   Dep_notify env_hostile None 0 state_in_computed = Some (Normal (), state_in_computed) \<and>
   Dep_notify env_prod None 0 state_in_computed = Some (Normal (), state_in_computed)"
proof -
  have a: "activeSub state_in_computed = Some 1"
    by (simp add: state_in_computed_def state_empty_def)
  have b: "isComputedRefImpl (subH state_in_computed 1)"
    by (simp add: state_in_computed_def state_empty_def)
  have c: "subs (depH state_in_computed 0) = Some 0"
    by (simp add: state_in_computed_def state_empty_def)
  show ?thesis
    using c Dep_notify_suppressed_in_computed [OF a b, of env_hostile None 0]
      Dep_notify_suppressed_in_computed [OF a b, of env_prod None 0]
    by simp
qed

text \<open>
  C1. The suppression comes with no diagnostic: the development branch of
  \<^verbatim>\<open>Dep.notify\<close> is the empty \<^verbatim>\<open>// TODO warning\<close>. In the development build \<open>env_dev\<close>,
  where \<^verbatim>\<open>warn\<close> writes a line to the console, \<^verbatim>\<open>Dep.notify\<close> on dep 0 (which has a
  subscriber) while the computed 1 is the active subscriber returns normally with the
  state as it was: the subscriber is not notified, nothing is thrown, and the console is
  still empty.
\<close>

theorem Dep_notify_in_computed_emits_no_diagnostic:
  "DEV env_dev \<and>
   warn env_dev ''reactive side effect triggered during computed evaluation'' state_in_computed =
     (Normal (), state_in_computed
        \<lparr>console := [''reactive side effect triggered during computed evaluation'']\<rparr>) \<and>
   activeSub state_in_computed = Some 1 \<and>
   isComputedRefImpl (subH state_in_computed 1) \<and>
   subs (depH state_in_computed 0) = Some 0 \<and>
   console state_in_computed = [] \<and>
   Dep_notify env_dev None 0 state_in_computed = Some (Normal (), state_in_computed)"
  by (simp add: Dep_notify_def env_dev_def env_prod_def say_def state_in_computed_def
      state_empty_def)

text \<open>
  Outside a computed the same call in the hostile environment does throw: the
  suppression above is not an artefact of the example.
\<close>

lemma Dep_notify_idle_hostile:
  "Dep_notify env_hostile None 0 state_idle = Some (Throw (Thrown 1), state_idle)"
  by (simp add: Dep_notify_def env_hostile_def failing_def state_idle_def
      state_in_computed_def state_empty_def)

text \<open>
  C6. \<^verbatim>\<open>Dep.trigger\<close> is \<^verbatim>\<open>Dep.notify\<close> run on the state in which the version of this dep
  and the global version are each one more and nothing else has changed.
\<close>

theorem Dep_trigger_bumps_then_notifies:
  "\<exists>s'. Dep_trigger e debugInfo d s = Dep_notify e debugInfo d s' \<and>
        dep_version (depH s' d) = dep_version (depH s d) + 1 \<and>
        globalVersion s' = globalVersion s + 1 \<and>
        s' = s\<lparr>depH := (depH s)(d := (depH s d)\<lparr>dep_version := dep_version (depH s d) + 1\<rparr>),
               globalVersion := globalVersion s + 1\<rparr>"
  by (simp add: Dep_trigger_def upd_dep_def Let_def)

lemma notify_loop_None: "notify_loop e debugInfo None s = Some (Normal (), s)"
  by (subst notify_loop.simps) simp

lemma notify_loop_Some:
  "notify_loop e debugInfo (Some l) s =
     (case trigger_hook e debugInfo l s of
        (Throw x, s1) \<Rightarrow> Some (Throw x, s1)
      | (Normal _, s1) \<Rightarrow>
          (case sub_notify e (sub (linkH s1 l)) s1 of
             (Throw x, s2) \<Rightarrow> Some (Throw x, s2)
           | (Normal _, s2) \<Rightarrow> notify_loop e debugInfo (prevSub (linkH s2 l)) s2))"
  by (subst notify_loop.simps) simp

lemma Dep_notify_idle_dev:
  "Dep_notify env_dev None 0 (state_idle\<lparr>depH := (depH state_idle)(0 := (depH state_idle 0)\<lparr>dep_version := 1\<rparr>),
       globalVersion := 1\<rparr>) =
   Some (Normal (),
     upd_sub 2 (\<lambda>x. x\<lparr>flags := 8\<rparr>)
       (state_idle\<lparr>depH := (depH state_idle)(0 := (depH state_idle 0)\<lparr>dep_version := 1\<rparr>),
          globalVersion := 1\<rparr>))"
  by (simp add: Dep_notify_def env_dev_def env_prod_def noop_def mark_notified_def
      notify_loop_Some notify_loop_None trigger_hook_def state_idle_def state_in_computed_def
      state_empty_def sub_empty_def link_empty_def dep_empty_def upd_sub_def)

theorem Dep_trigger_bumps_then_notifies_witness:
  "\<exists>s'. Dep_trigger env_dev None 0 state_idle = Some (Normal (), s') \<and>
        dep_version (depH s' 0) = 1 \<and> globalVersion s' = 1 \<and> flags (subH s' 2) = 8"
proof -
  have d0: "dep_version (depH state_idle 0) = 0" and g0: "globalVersion state_idle = 0"
    by (simp_all add: state_idle_def state_in_computed_def state_empty_def dep_empty_def)
  from Dep_trigger_bumps_then_notifies [of env_dev None 0 state_idle]
  have "Dep_trigger env_dev None 0 state_idle =
        Dep_notify env_dev None 0
          (state_idle\<lparr>depH := (depH state_idle)(0 := (depH state_idle 0)\<lparr>dep_version := 1\<rparr>),
             globalVersion := 1\<rparr>)"
    by (simp add: d0 g0)
  then show ?thesis
    by (simp add: Dep_notify_idle_dev upd_sub_def)
qed

section \<open>Dep.track\<close>

text \<open>
  C7. With no active subscriber, or with tracking suspended, \<^verbatim>\<open>track\<close> and \<^verbatim>\<open>Dep.track\<close>
  return with the whole state as it was: the registry, every dep, every link and every
  subscriber are unchanged, no dep is created and nothing of the environment is called.
\<close>

theorem track_noop_without_active_subscriber:
  assumes "activeSub s = None \<or> \<not> shouldTrack s"
  shows "track e tgt ty key s = Some (Normal (), s) \<and>
         Dep_track e debugInfo d s = Some (Normal None, s)"
  using assms by (auto simp: track_def Dep_track_def split: option.splits)

theorem track_noop_without_active_subscriber_witness:
  "targetMap state_idle (Target 7 PlainObject) = None \<and>
   track env_hostile (Target 7 PlainObject) GET (Str ''a'') state_idle = Some (Normal (), state_idle) \<and>
   Dep_track env_hostile None 0 state_idle = Some (Normal None, state_idle) \<and>
   activeSub state_paused = Some 1 \<and>
   track env_hostile (Target 7 PlainObject) GET (Str ''a'') state_paused
     = Some (Normal (), state_paused) \<and>
   Dep_track env_hostile None 0 state_paused = Some (Normal None, state_paused)"
proof -
  have a: "activeSub state_idle = None \<or> \<not> shouldTrack state_idle"
    by (simp add: state_idle_def)
  have b: "activeSub state_paused = None \<or> \<not> shouldTrack state_paused"
    by (simp add: state_paused_def)
  have c: "targetMap state_idle (Target 7 PlainObject) = None"
    by (simp add: state_idle_def state_in_computed_def state_empty_def)
  have d: "activeSub state_paused = Some 1"
    by (simp add: state_paused_def state_rerun_def)
  show ?thesis
    using c d
      track_noop_without_active_subscriber
        [OF a, of env_hostile "Target 7 PlainObject" GET "Str ''a''" None 0]
      track_noop_without_active_subscriber
        [OF b, of env_hostile "Target 7 PlainObject" GET "Str ''a''" None 0]
    by simp
qed

text \<open>
  C10. When the \<^verbatim>\<open>activeLink\<close> of a dep belongs to the active subscriber and is in
  sync (its version is not \<open>-1\<close>), \<^verbatim>\<open>Dep.track\<close> changes nothing: neither the dep, nor
  its subscriber list, nor the dependency list of the subscriber. While tracking is
  not suspended it returns that link, and the only thing that happens is the call of
  the subscriber's \<^verbatim>\<open>onTrack\<close> hook in a development build, on the unchanged state; with
  tracking suspended it returns \<^verbatim>\<open>undefined\<close>.
\<close>

theorem Dep_track_again_is_idempotent:
  assumes "activeSub s = Some a"
    and "activeLink (depH s d) = Some l" and "sub (linkH s l) = a"
    and "version (linkH s l) \<noteq> - 1"
  shows "Dep_track e debugInfo d s =
           Some (if \<not> shouldTrack s then (Normal None, s)
                 else if DEV e \<and> onTrack (subH s a) \<noteq> None
                 then track_hook e debugInfo a l s
                 else (Normal (Some l), s))"
  using assms by (auto simp: Dep_track_def track_link_def track_hook_def)

theorem Dep_track_again_is_idempotent_witness:
  "version (linkH state_synced 11) = 5 \<and>
   Dep_track env_dev None 1 state_synced = Some (Normal (Some 11), state_synced) \<and>
   Dep_track env_hostile None 1 state_synced = Some (Normal (Some 11), state_synced) \<and>
   Dep_track env_hostile None 1 state_synced_paused = Some (Normal None, state_synced_paused)"
proof -
  have h: "activeSub state_synced = Some 1"
    "activeLink (depH state_synced 1) = Some 11" "sub (linkH state_synced 11) = 1"
    "version (linkH state_synced 11) \<noteq> - 1"
    by (simp_all add: state_synced_def state_rerun_def state_empty_def upd_link_def
        link_empty_def dep_empty_def)
  have h': "activeSub state_synced_paused = Some 1"
    "activeLink (depH state_synced_paused 1) = Some 11" "sub (linkH state_synced_paused 11) = 1"
    "version (linkH state_synced_paused 11) \<noteq> - 1"
    using h by (simp_all add: state_synced_paused_def)
  have v: "version (linkH state_synced 11) = 5"
    by (simp add: state_synced_def upd_link_def)
  have o: "onTrack (subH state_synced 1) = None" "shouldTrack state_synced"
    "\<not> shouldTrack state_synced_paused"
    by (simp_all add: state_synced_paused_def state_synced_def state_rerun_def state_empty_def
        upd_link_def sub_empty_def)
  show ?thesis
    using v o Dep_track_again_is_idempotent [OF h, of env_dev None]
      Dep_track_again_is_idempotent [OF h, of env_hostile None]
      Dep_track_again_is_idempotent [OF h', of env_hostile None]
    by simp
qed

text \<open>
  With tracking suspended the call does not return the link: in \<open>state_synced_paused\<close>
  link 11 of the active effect 1 is the \<^verbatim>\<open>activeLink\<close> of dep 1 and in sync, and
  \<^verbatim>\<open>Dep.track\<close> returns \<^verbatim>\<open>undefined\<close>.
\<close>

theorem Dep_track_again_suspended_counterexample:
  "activeSub state_synced_paused = Some 1 \<and>
   activeLink (depH state_synced_paused 1) = Some 11 \<and>
   sub (linkH state_synced_paused 11) = 1 \<and>
   version (linkH state_synced_paused 11) = 5 \<and>
   Dep_track env_prod None 1 state_synced_paused = Some (Normal None, state_synced_paused)"
  by (simp add: Dep_track_def state_synced_paused_def state_synced_def state_rerun_def
      state_empty_def upd_link_def link_empty_def dep_empty_def)

section \<open>The debug hooks of debug.ts\<close>

text \<open>
  C9. Outside a development build \<^verbatim>\<open>onTrack\<close> and \<^verbatim>\<open>onTrigger\<close> throw their internal
  error on the unchanged state, whatever the subscriber, the event and the hooks are:
  no hook is called. In a development build the guard does not throw: without a hook
  the call returns normally, with a hook the outcome is that of the hook.
\<close>

theorem debug_hooks_throw_outside_development:
  "(\<not> DEV e \<longrightarrow>
      debug_onTrack e a debugInfo s =
        (Throw (Error ''Internal error: onTrack should be called only in development.''), s) \<and>
      debug_onTrigger e a s =
        (Throw (Error ''Internal error: onTrigger should be called only in development.''), s)) \<and>
   (DEV e \<longrightarrow>
      debug_onTrack e a debugInfo s =
        (case onTrack (subH s a) of
           None \<Rightarrow> (Normal (), s)
         | Some h \<Rightarrow> call_hook e h (extend_event a (Some debugInfo)) s) \<and>
      debug_onTrigger e a s =
        (case onTrigger (subH s a) of
           None \<Rightarrow> (Normal (), s)
         | Some h \<Rightarrow>
             call_hook e h
               (extend_event a
                  (if triggerEventInfos s = [] then None
                   else Some (last (triggerEventInfos s)))) s))"
  by (simp add: debug_onTrack_def debug_onTrigger_def split: option.splits)

theorem debug_hooks_throw_outside_development_witness:
  "onTrack (subH state_hooked 1) = Some 0 \<and> onTrigger (subH state_hooked 1) = Some 1 \<and>
   debug_onTrack (env_hostile\<lparr>DEV := False\<rparr>) 1 info_a state_hooked =
     (Throw (Error ''Internal error: onTrack should be called only in development.''), state_hooked) \<and>
   debug_onTrigger (env_hostile\<lparr>DEV := False\<rparr>) 1 state_hooked =
     (Throw (Error ''Internal error: onTrigger should be called only in development.''), state_hooked) \<and>
   debug_onTrack env_dev 2 info_a state_hooked = (Normal (), state_hooked) \<and>
   debug_onTrigger env_dev 2 state_hooked = (Normal (), state_hooked) \<and>
   debug_onTrack env_dev 1 info_a state_hooked =
     (Normal (), state_hooked\<lparr>console := [''hook'']\<rparr>)"
proof -
  have p: "\<not> DEV (env_hostile\<lparr>DEV := False\<rparr>)" by simp
  have q: "DEV env_dev" by (simp add: env_dev_def)
  have h: "onTrack (subH state_hooked 1) = Some 0" "onTrigger (subH state_hooked 1) = Some 1"
    "onTrack (subH state_hooked 2) = None" "onTrigger (subH state_hooked 2) = None"
    by (simp_all add: state_hooked_def state_empty_def sub_empty_def)
  have c: "call_hook env_dev 0 (extend_event 1 (Some info_a)) state_hooked =
           (Normal (), state_hooked\<lparr>console := [''hook'']\<rparr>)"
    by (simp add: env_dev_def say_def state_hooked_def state_empty_def)
  show ?thesis
    using p q h c
      debug_hooks_throw_outside_development [of "env_hostile\<lparr>DEV := False\<rparr>" 1 info_a state_hooked]
      debug_hooks_throw_outside_development [of env_dev 2 info_a state_hooked]
      debug_hooks_throw_outside_development [of env_dev 1 info_a state_hooked]
    by simp
qed

section \<open>The setter of a computed ref\<close>

text \<open>
  C8. A computed ref made from a getter alone has no setter and is readonly. Assigning
  to its value never calls a setter: in a production build the call returns normally
  with the state as it was, in a development build it is the call
  \<^verbatim>\<open>warn('Write operation failed: computed value is readonly')\<close> on the unchanged state
  and nothing else.
\<close>

theorem readonly_computed_write_is_dropped:
  assumes "computed_ref e (GetterFn g) debugOptions ssr s = (c, s1)"
  shows "setter (subH s1 c) = None \<and> isReadonly (subH s1 c) \<and>
         set_value e c newValue s1 =
           (if DEV e then warn e ''Write operation failed: computed value is readonly'' s1
            else (Normal (), s1))"
  using assms
  by (auto simp: computed_ref_def new_ComputedRefImpl_def set_value_def upd_sub_def Let_def
      split: option.splits if_splits)

theorem readonly_computed_write_is_dropped_witness:
  "\<exists>s1. computed_ref env_prod (GetterFn 0) None False state_empty = (0, s1) \<and>
        set_value env_prod 0 (Num (Fin 1)) s1 = (Normal (), s1) \<and>
        set_value (env_hostile\<lparr>DEV := False\<rparr>) 0 (Num (Fin 1)) s1 = (Normal (), s1) \<and>
        set_value env_dev 0 (Num (Fin 1)) s1 =
          (Normal (), s1\<lparr>console := [''Write operation failed: computed value is readonly'']\<rparr>)"
proof -
  define s1 where "s1 = snd (computed_ref env_prod (GetterFn 0) None False state_empty)"
  have c: "computed_ref env_prod (GetterFn 0) None False state_empty = (0, s1)"
    by (simp add: s1_def computed_ref_def new_ComputedRefImpl_def state_empty_def)
  have c': "computed_ref (env_hostile\<lparr>DEV := False\<rparr>) (GetterFn 0) None False state_empty = (0, s1)"
    by (simp add: s1_def computed_ref_def new_ComputedRefImpl_def state_empty_def
        env_prod_def env_hostile_def)
  have c'': "computed_ref env_dev (GetterFn 0) None False state_empty = (0, s1)"
    by (simp add: s1_def computed_ref_def new_ComputedRefImpl_def state_empty_def
        env_prod_def env_dev_def)
  have k: "console s1 = []"
    by (simp add: s1_def computed_ref_def new_ComputedRefImpl_def state_empty_def)
  have w: "warn env_dev ''Write operation failed: computed value is readonly'' s1 =
           (Normal (), s1\<lparr>console := [''Write operation failed: computed value is readonly'']\<rparr>)"
    by (simp add: env_dev_def say_def k)
  show ?thesis
    using c w
      readonly_computed_write_is_dropped [OF c, of "Num (Fin 1)"]
      readonly_computed_write_is_dropped [OF c', of "Num (Fin 1)"]
      readonly_computed_write_is_dropped [OF c'', of "Num (Fin 1)"]
    by (simp add: env_prod_def env_dev_def)
qed

section \<open>Reusing a link: the dependency list of the subscriber\<close>

lemma seg_P_upd [simp]: "x \<notin> set ls \<Longrightarrow> seg (P(x := v)) N p ls q = seg P N p ls q"
  by (induction ls arbitrary: p) auto

lemma seg_N_upd [simp]: "x \<notin> set ls \<Longrightarrow> seg P (N(x := v)) p ls q = seg P N p ls q"
  by (induction ls arbitrary: p) auto

lemma seg_cong:
  "(\<And>x. x \<in> set ls \<Longrightarrow> P' x = P x \<and> N' x = N x) \<Longrightarrow> seg P' N' p ls q = seg P N p ls q"
  by (induction ls arbitrary: p) (auto split: list.splits)

lemma seg_append:
  "xs \<noteq> [] \<Longrightarrow> zs \<noteq> [] \<Longrightarrow>
   seg P N p (xs @ zs) q = (seg P N p xs (Some (hd zs)) \<and> seg P N (Some (last xs)) zs q)"
proof (induction xs arbitrary: p)
  case Nil
  then show ?case by simp
next
  case (Cons x xs)
  show ?case
  proof (cases xs)
    case Nil
    with Cons.prems show ?thesis by (cases zs) auto
  next
    case (Cons y ys)
    with Cons.IH [of "Some x"] Cons.prems show ?thesis by auto
  qed
qed

lemma seg_last_upd:
  "ls \<noteq> [] \<Longrightarrow> distinct ls \<Longrightarrow> seg P N p ls q \<Longrightarrow> seg P (N(last ls := q')) p ls q'"
proof (induction ls arbitrary: p)
  case Nil
  then show ?case by simp
next
  case (Cons x xs)
  show ?case
  proof (cases xs)
    case Nil
    with Cons.prems show ?thesis by simp
  next
    case (Cons y ys)
    with Cons.prems Cons.IH [of "Some x"] show ?thesis by auto
  qed
qed

lemma seg_hd_upd:
  "ls \<noteq> [] \<Longrightarrow> distinct ls \<Longrightarrow> seg P N p ls q \<Longrightarrow> seg (P(hd ls := p')) N p' ls q"
  by (cases ls) auto

lemma seg_last_next: "ls \<noteq> [] \<Longrightarrow> seg P N p ls q \<Longrightarrow> N (last ls) = q"
  by (induction ls arbitrary: p) (auto split: list.splits)

lemma split_distinct:
  assumes "l \<in> set ls" and "distinct ls"
  obtains xs ys where "ls = xs @ l # ys" and "remove1 l ls = xs @ ys"
proof -
  from assms(1) obtain xs ys where e: "ls = xs @ l # ys" by (auto dest: split_list)
  with assms(2) have "l \<notin> set xs" by auto
  with e have "remove1 l ls = xs @ ys" by (simp add: remove1_append)
  with e show ?thesis using that by blast
qed

text \<open>The link is the tail already: only its version is written.\<close>

lemma track_reuse_tail:
  assumes dl: "dep_list s a (xs @ [l])"
  shows "\<exists>s'. track_reuse d a l s = (Normal l, s') \<and>
           version (linkH s' l) = dep_version (depH s d) \<and>
           deps (subH s' a) = Some l \<and>
           dep_list s' a (xs @ [l]) \<and>
           depH s' = depH s \<and> onTrack (subH s' a) = onTrack (subH s a)"
proof -
  let ?s = "upd_link l (\<lambda>x. x\<lparr>version := dep_version (depH s d)\<rparr>) s"
  from dl have sg: "seg (\<lambda>x. prevDep (linkH s x)) (\<lambda>x. nextDep (linkH s x)) None (xs @ [l]) None"
    by (simp add: dep_list_def)
  then have "nextDep (linkH s l) = None"
    using seg_last_next [of "xs @ [l]" "\<lambda>x. prevDep (linkH s x)" "\<lambda>x. nextDep (linkH s x)" None None]
    by simp
  then have r: "track_reuse d a l s = (Normal l, ?s)"
    by (simp add: track_reuse_def upd_link_def)
  have "seg (\<lambda>x. prevDep (linkH ?s x)) (\<lambda>x. nextDep (linkH ?s x)) None (xs @ [l]) None
        = seg (\<lambda>x. prevDep (linkH s x)) (\<lambda>x. nextDep (linkH s x)) None (xs @ [l]) None"
    by (intro seg_cong) (simp add: upd_link_def)
  with sg dl have "dep_list ?s a (xs @ [l])"
    by (simp add: dep_list_def upd_link_def)
  moreover from dl have "deps (subH ?s a) = Some l"
    by (simp add: dep_list_def upd_link_def)
  ultimately show ?thesis using r by (auto simp: upd_link_def)
qed

text \<open>The link has a successor: it is unlinked and appended behind the former tail.\<close>

lemma track_reuse_middle:
  assumes dl: "dep_list s a (xs @ l # y # ys)"
  shows "\<exists>s'. track_reuse d a l s = (Normal l, s') \<and>
           version (linkH s' l) = dep_version (depH s d) \<and>
           deps (subH s' a) = Some l \<and>
           dep_list s' a (xs @ y # ys @ [l]) \<and>
           depH s' = depH s \<and> onTrack (subH s' a) = onTrack (subH s a)"
proof -
  define P where "P = (\<lambda>x. prevDep (linkH s x))"
  define N where "N = (\<lambda>x. nextDep (linkH s x))"
  define t where "t = last (y # ys)"
  define pl where "pl = (if xs = [] then None else Some (last xs))"
  from dl have dist: "distinct (xs @ l # y # ys)"
    and sg: "seg P N None (xs @ l # y # ys) None"
    and tl: "deps (subH s a) = Some t"
    by (simp_all add: dep_list_def P_def N_def t_def)
  have tin: "t \<in> set (y # ys)" unfolding t_def by (rule last_in_set) simp
  from dist tin have tl_ne: "t \<noteq> l" by auto
  from dist have yl: "y \<noteq> l" by auto
  have segs: "(xs \<noteq> [] \<longrightarrow> seg P N None xs (Some l)) \<and> P l = pl \<and> N l = Some y \<and>
              seg P N (Some l) (y # ys) None"
  proof (cases "xs = []")
    case True
    with sg show ?thesis by (simp add: pl_def)
  next
    case False
    with sg seg_append [of xs "l # y # ys" P N None None] show ?thesis by (simp add: pl_def)
  qed
  from segs have Pl: "prevDep (linkH s l) = pl" and Nl: "nextDep (linkH s l) = Some y"
    by (simp_all add: P_def N_def)
  define s' where "s' = snd (track_reuse d a l s)"
  have res: "track_reuse d a l s = (Normal l, s')"
    unfolding s'_def using Pl Nl tl yl tl_ne
    by (auto simp: track_reuse_def Let_def upd_link_def upd_sub_def split: option.splits)
  have P': "(\<lambda>x. prevDep (linkH s' x)) = P(y := pl, l := Some t)"
    unfolding s'_def P_def using Pl Nl tl yl tl_ne dist
    by (auto simp: track_reuse_def Let_def upd_link_def upd_sub_def pl_def fun_eq_iff
        split: option.splits)
  have N': "(\<lambda>x. nextDep (linkH s' x)) =
              (if xs = [] then N else N(last xs := Some y))(t := Some l, l := None)"
    unfolding s'_def N_def using Pl Nl tl yl tl_ne dist
    by (auto simp: track_reuse_def Let_def upd_link_def upd_sub_def pl_def fun_eq_iff
        split: option.splits)
  have ver: "version (linkH s' l) = dep_version (depH s d)"
    unfolding s'_def using Pl Nl tl yl tl_ne
    by (auto simp: track_reuse_def Let_def upd_link_def upd_sub_def pl_def split: option.splits)
  have dp: "deps (subH s' a) = Some l" and dh: "depH s' = depH s"
    and ot: "onTrack (subH s' a) = onTrack (subH s a)"
    unfolding s'_def using Pl Nl tl yl tl_ne
    by (auto simp: track_reuse_def Let_def upd_link_def upd_sub_def pl_def split: option.splits)
  have mid: "seg (P(y := pl)) (N(t := Some l)) pl (y # ys) (Some l)"
  proof -
    from segs have "seg P N (Some l) (y # ys) None" by simp
    with dist have "seg (P(hd (y # ys) := pl)) N pl (y # ys) None"
      by (intro seg_hd_upd) auto
    with dist have "seg (P(hd (y # ys) := pl)) (N(last (y # ys) := Some l)) pl (y # ys) (Some l)"
      by (intro seg_last_upd) auto
    then show ?thesis by (simp add: t_def)
  qed
  have new: "seg (\<lambda>x. prevDep (linkH s' x)) (\<lambda>x. nextDep (linkH s' x)) None
               (xs @ y # ys @ [l]) None"
  proof (cases "xs = []")
    case True
    have "seg (P(y := pl, l := Some t)) (N(t := Some l, l := None)) None ((y # ys) @ [l]) None"
      using mid dist tl_ne True
      by (subst seg_append) (auto simp: t_def pl_def)
    with True show ?thesis by (simp add: P' N')
  next
    case False
    from segs False have "seg P N None xs (Some l)" by simp
    with dist False have a1: "seg P (N(last xs := Some y)) None xs (Some y)"
      by (intro seg_last_upd) auto
    have lx: "last xs \<in> set xs" using False by simp
    with dist have lxn: "last xs \<notin> set (y # ys)" by auto
    have tnx: "t \<notin> set xs" using dist tin by auto
    have ynx: "y \<notin> set xs" using dist by auto
    have lnx: "l \<notin> set xs" using dist by auto
    have b1: "seg (P(y := pl, l := Some t)) ((N(last xs := Some y))(t := Some l, l := None))
                None xs (Some y)"
      using a1 tnx ynx lnx by simp
    have mid': "seg (P(y := pl)) ((N(last xs := Some y))(t := Some l)) pl (y # ys) (Some l)"
    proof -
      have "seg (P(y := pl)) ((N(last xs := Some y))(t := Some l)) pl (y # ys) (Some l)
            = seg (P(y := pl)) (N(t := Some l)) pl (y # ys) (Some l)"
        using lxn by (intro seg_cong) auto
      with mid show ?thesis by simp
    qed
    have b2: "seg (P(y := pl, l := Some t)) ((N(last xs := Some y))(t := Some l, l := None))
                 (Some (last xs)) ((y # ys) @ [l]) None"
      using mid' dist tl_ne False
      by (subst seg_append) (auto simp: t_def pl_def)
    have "seg (P(y := pl, l := Some t)) ((N(last xs := Some y))(t := Some l, l := None)) None
            (xs @ ((y # ys) @ [l])) None"
      using b1 b2 False by (subst seg_append) auto
    with False show ?thesis by (simp add: P' N')
  qed
  from dist have "distinct (xs @ y # ys @ [l])" by auto
  with new dp have "dep_list s' a (xs @ y # ys @ [l])" by (simp add: dep_list_def)
  with res ver dp dh ot show ?thesis by blast
qed

lemma track_reuse_relinks:
  assumes dl: "dep_list s a ls" and l: "l \<in> set ls"
  shows "\<exists>s'. track_reuse d a l s = (Normal l, s') \<and>
           version (linkH s' l) = dep_version (depH s d) \<and>
           deps (subH s' a) = Some l \<and>
           dep_list s' a (remove1 l ls @ [l]) \<and>
           depH s' = depH s \<and> onTrack (subH s' a) = onTrack (subH s a)"
proof -
  from dl have "distinct ls" by (simp add: dep_list_def)
  with l obtain xs ys where e: "ls = xs @ l # ys" and r: "remove1 l ls = xs @ ys"
    by (rule split_distinct)
  show ?thesis
  proof (cases ys)
    case Nil
    with dl e r track_reuse_tail [of s a xs l d] show ?thesis by simp
  next
    case (Cons y zs)
    with dl e r track_reuse_middle [of s a xs l y zs d] show ?thesis by simp
  qed
qed

text \<open>
  C2. The active subscriber \<open>a\<close> has the dependency list \<open>ls\<close>, the \<^verbatim>\<open>activeLink\<close> \<open>l\<close>
  of the dep belongs to \<open>a\<close>, is one of \<open>ls\<close> and carries the reuse mark \<open>-1\<close>. Then
  \<^verbatim>\<open>Dep.track\<close> reaches its debug hook in a state \<open>s'\<close> in which the version of \<open>l\<close> is
  the version of the dep (itself unchanged), \<^verbatim>\<open>a.deps\<close> is \<open>l\<close>, and the dependency list
  of \<open>a\<close> is again a well-formed doubly linked list: \<open>ls\<close> with \<open>l\<close> moved to the end,
  so with the same links.
\<close>

theorem Dep_track_reuse_moves_link_to_tail:
  assumes "activeSub s = Some a" and "shouldTrack s"
    and "activeLink (depH s d) = Some l" and "sub (linkH s l) = a"
    and "version (linkH s l) = - 1"
    and "dep_list s a ls" and "l \<in> set ls"
  shows "\<exists>s'. Dep_track e debugInfo d s =
                Some (if DEV e \<and> onTrack (subH s a) \<noteq> None
                      then track_hook e debugInfo a l s'
                      else (Normal (Some l), s')) \<and>
           version (linkH s' l) = dep_version (depH s' d) \<and>
           depH s' = depH s \<and>
           deps (subH s' a) = Some l \<and>
           dep_list s' a (remove1 l ls @ [l]) \<and>
           set (remove1 l ls @ [l]) = set ls"
proof -
  from track_reuse_relinks [OF assms(6,7), of d] obtain s' where
    r: "track_reuse d a l s = (Normal l, s')"
    and p: "version (linkH s' l) = dep_version (depH s d)" "deps (subH s' a) = Some l"
      "dep_list s' a (remove1 l ls @ [l])" "depH s' = depH s"
    and ot: "onTrack (subH s' a) = onTrack (subH s a)"
    by blast
  from assms r have "Dep_track e debugInfo d s = Some (track_hook e debugInfo a l s')"
    by (simp add: Dep_track_def track_link_def)
  with ot have "Dep_track e debugInfo d s =
                Some (if DEV e \<and> onTrack (subH s a) \<noteq> None
                      then track_hook e debugInfo a l s'
                      else (Normal (Some l), s'))"
    by (auto simp: track_hook_def)
  moreover from assms(6) have "distinct ls" by (simp add: dep_list_def)
  with assms(7) have "set (remove1 l ls @ [l]) = set ls" by auto
  ultimately show ?thesis using p by auto
qed

lemma dep_list_state_rerun: "dep_list state_rerun 1 [10, 11, 12]"
  by (simp add: dep_list_def state_rerun_def state_empty_def link_empty_def sub_empty_def)

theorem Dep_track_reuse_moves_link_to_tail_witness:
  "(\<exists>s'. Dep_track env_prod None 1 state_rerun = Some (Normal (Some 11), s') \<and>
         version (linkH s' 11) = 5 \<and> deps (subH s' 1) = Some 11 \<and>
         dep_list s' 1 [10, 12, 11]) \<and>
   (\<exists>s'. Dep_track env_prod None 2 state_rerun = Some (Normal (Some 12), s') \<and>
         version (linkH s' 12) = 0 \<and> deps (subH s' 1) = Some 12 \<and>
         dep_list s' 1 [10, 11, 12])"
proof -
  have h: "activeSub state_rerun = Some 1" "shouldTrack state_rerun"
    by (simp_all add: state_rerun_def state_empty_def)
  have h1: "activeLink (depH state_rerun 1) = Some 11" "sub (linkH state_rerun 11) = 1"
    "version (linkH state_rerun 11) = - 1" "dep_version (depH state_rerun 1) = 5"
    by (simp_all add: state_rerun_def state_empty_def link_empty_def dep_empty_def)
  have h2: "activeLink (depH state_rerun 2) = Some 12" "sub (linkH state_rerun 12) = 1"
    "version (linkH state_rerun 12) = - 1" "dep_version (depH state_rerun 2) = 0"
    by (simp_all add: state_rerun_def state_empty_def link_empty_def dep_empty_def)
  have k: "\<not> DEV env_prod" by (simp add: env_prod_def)
  have m1: "(11::nat) \<in> set [10, 11, 12]" and m2: "(12::nat) \<in> set [10, 11, 12]" by simp_all
  from Dep_track_reuse_moves_link_to_tail
    [OF h h1(1,2,3) dep_list_state_rerun m1, of env_prod None]
  have a: "\<exists>s'. Dep_track env_prod None 1 state_rerun = Some (Normal (Some 11), s') \<and>
         version (linkH s' 11) = 5 \<and> deps (subH s' 1) = Some 11 \<and>
         dep_list s' 1 [10, 12, 11]"
    using h1(4) by (auto simp: k)
  from Dep_track_reuse_moves_link_to_tail
    [OF h h2(1,2,3) dep_list_state_rerun m2, of env_prod None]
  have b: "\<exists>s'. Dep_track env_prod None 2 state_rerun = Some (Normal (Some 12), s') \<and>
         version (linkH s' 12) = 0 \<and> deps (subH s' 1) = Some 12 \<and>
         dep_list s' 1 [10, 11, 12]"
    using h2(4) by (auto simp: k)
  from a b show ?thesis by blast
qed

section \<open>A computed dep gaining its first subscriber\<close>

lemma chain_cong:
  "(\<And>x. x \<in> set ls \<Longrightarrow> N' x = N x) \<Longrightarrow> chain N' st ls = chain N st ls"
  by (induction ls arbitrary: st) auto

lemma chain_det: "chain N st ls \<Longrightarrow> chain N st ls' \<Longrightarrow> ls = ls'"
proof (induction ls arbitrary: st ls')
  case Nil
  then show ?case by (cases ls') auto
next
  case (Cons x xs)
  then show ?case by (cases ls') auto
qed

lemma chain_suffix: "chain N st (as @ bs) \<Longrightarrow> \<exists>st'. chain N st' bs"
  by (induction as arbitrary: st) auto

text \<open>A chain that ends meets no link twice.\<close>

lemma chain_distinct: "chain N st ls \<Longrightarrow> distinct ls"
proof (induction ls arbitrary: st)
  case Nil
  then show ?case by simp
next
  case (Cons x xs)
  then have c: "chain N (N x) xs" and st: "st = Some x" by auto
  have "x \<notin> set xs"
  proof
    assume "x \<in> set xs"
    then obtain as bs where e: "xs = as @ x # bs" by (auto dest: split_list)
    with c obtain st' where "chain N st' (x # bs)" using chain_suffix by blast
    then have "chain N (Some x) (x # bs)" by auto
    moreover from Cons.prems st have "chain N (Some x) (x # xs)" by simp
    ultimately have "x # bs = x # xs" by (rule chain_det)
    with e show False by simp
  qed
  with Cons.IH [OF c] show ?case by simp
qed

lemma reach_in_frame:
  "reach_in s P st p \<Longrightarrow> (\<And>y. y \<in> P \<Longrightarrow> prevSub (linkH s' y) = prevSub (linkH s y)) \<Longrightarrow>
   P \<subseteq> Q \<Longrightarrow> reach_in s' Q st p"
proof (induction rule: reach_in.induct)
  case (here x)
  then show ?case by (auto intro: reach_in.here)
next
  case (step y x)
  then have "reach_in s' Q (prevSub (linkH s y)) x" by simp
  moreover from step have "prevSub (linkH s' y) = prevSub (linkH s y)" "y \<in> Q" by auto
  ultimately show ?case by (auto intro: reach_in.step)
qed

lemma reach_in_start: "reach_in s P st p \<Longrightarrow> \<exists>t. st = Some t \<and> t \<in> P"
  by (induction rule: reach_in.induct) auto

lemma all_attached_attached: "all_attached s P \<Longrightarrow> x \<in> P \<Longrightarrow> attached s x"
  unfolding all_attached_def attached_def
  by (auto intro: reach_in_frame [where s = s and P = P])

text \<open>What \<^verbatim>\<open>addSub\<close> writes.\<close>

lemma addSub_dep [simp]: "dep (linkH (addSub x s) z) = dep (linkH s z)"
  by (simp add: addSub_def Let_def upd_link_def upd_dep_def split: option.splits)

lemma addSub_nextDep [simp]: "nextDep (linkH (addSub x s) z) = nextDep (linkH s z)"
  by (simp add: addSub_def Let_def upd_link_def upd_dep_def split: option.splits)

lemma addSub_subH [simp]: "subH (addSub x s) = subH s"
  by (simp add: addSub_def Let_def upd_link_def upd_dep_def split: option.splits)

lemma addSub_subs:
  "subs (depH (addSub x s) D) = (if D = dep (linkH s x) then Some x else subs (depH s D))"
  by (simp add: addSub_def Let_def upd_link_def upd_dep_def split: option.splits)

lemma addSub_prevSub:
  "prevSub (linkH (addSub x s) z) =
     (if z = x \<and> subs (depH s (dep (linkH s x))) \<noteq> Some x
      then subs (depH s (dep (linkH s x))) else prevSub (linkH s z))"
  by (simp add: addSub_def Let_def upd_link_def upd_dep_def split: option.splits)

text \<open>
  One \<^verbatim>\<open>addSub\<close> keeps the links attached so far attached and attaches the new one: the
  new link becomes the tail, and its \<^verbatim>\<open>prevSub\<close> is the former tail.
\<close>

lemma addSub_all_attached:
  assumes x: "x \<notin> P" and inv: "all_attached s P"
  shows "all_attached (addSub x s) (insert x P)"
  unfolding all_attached_def
proof
  fix p assume p: "p \<in> insert x P"
  let ?s = "addSub x s"
  let ?D = "dep (linkH s x)"
  have fr: "\<And>y. y \<in> P \<Longrightarrow> prevSub (linkH ?s y) = prevSub (linkH s y)"
    using x by (auto simp: addSub_prevSub)
  show "reach_in ?s (insert x P) (subs (depH ?s (dep (linkH ?s p)))) p"
  proof (cases "p = x")
    case True
    then show ?thesis by (simp add: addSub_subs reach_in.here)
  next
    case False
    with p have pP: "p \<in> P" by simp
    with inv have old: "reach_in s P (subs (depH s (dep (linkH s p)))) p"
      by (simp add: all_attached_def)
    show ?thesis
    proof (cases "dep (linkH s p) = ?D")
      case False
      with old fr show ?thesis
        by (auto simp: addSub_subs intro: reach_in_frame)
    next
      case True
      with old have r: "reach_in s P (subs (depH s ?D)) p" by simp
      then obtain t where t: "subs (depH s ?D) = Some t" "t \<in> P" using reach_in_start by blast
      with x have "subs (depH s ?D) \<noteq> Some x" by auto
      then have px: "prevSub (linkH ?s x) = subs (depH s ?D)" by (simp add: addSub_prevSub)
      from r fr have "reach_in ?s (insert x P) (subs (depH s ?D)) p"
        by (auto intro: reach_in_frame)
      with px have "reach_in ?s (insert x P) (Some x) p"
        by (auto intro: reach_in.step)
      with True show ?thesis by (simp add: addSub_subs)
    qed
  qed
qed

text \<open>The loop returns on a chain that ends, and has then attached every link of it.\<close>

lemma addSub_loop_attaches:
  "chain (\<lambda>x. nextDep (linkH s x)) st ls \<Longrightarrow> all_attached s P \<Longrightarrow> set ls \<inter> P = {} \<Longrightarrow>
   \<exists>s'. addSub_loop st s = Some s' \<and> all_attached s' (P \<union> set ls) \<and> subH s' = subH s \<and>
        (\<forall>z. dep (linkH s' z) = dep (linkH s z))"
proof (induction ls arbitrary: s st P)
  case Nil
  then show ?case by (simp add: addSub_loop.simps)
next
  case (Cons x xs)
  then have st: "st = Some x" and ch: "chain (\<lambda>z. nextDep (linkH s z)) (nextDep (linkH s x)) xs"
    by auto
  from Cons.prems(1) have "distinct (x # xs)" by (rule chain_distinct)
  then have xn: "x \<notin> set xs" by simp
  from Cons.prems(3) have xP: "x \<notin> P" by auto
  have inv': "all_attached (addSub x s) (insert x P)"
    using xP Cons.prems(2) by (rule addSub_all_attached)
  have ch': "chain (\<lambda>z. nextDep (linkH (addSub x s) z)) (nextDep (linkH (addSub x s) x)) xs"
    using ch by simp
  have dj: "set xs \<inter> insert x P = {}" using xn Cons.prems(3) by auto
  from Cons.IH [OF ch' inv' dj] obtain s' where
    "addSub_loop (nextDep (linkH (addSub x s) x)) (addSub x s) = Some s'"
    "all_attached s' (insert x P \<union> set xs)" "subH s' = subH (addSub x s)"
    "\<forall>z. dep (linkH s' z) = dep (linkH (addSub x s) z)" by blast
  then show ?case using st
    by (subst addSub_loop.simps) (auto simp: Un_commute insert_commute)
qed

lemma track_new_env:
  assumes "TRACKING e' = TRACKING e" and "DIRTY e' = DIRTY e"
  shows "track_new e' d a s = track_new e d a s"
  unfolding track_new_def assms by (rule refl)

lemma track_new_promotes:
  assumes cp: "computed (depH s d) = Some c"
    and nos: "subs (depH s d) = None"
    and tr: "flags (subH s a) AND TRACKING e \<noteq> 0"
    and ac: "a \<noteq> c"
    and ch: "chain (\<lambda>x. nextDep (linkH s x)) (deps (subH s c)) ls"
    and al: "\<forall>x\<in>set ls. x < nextLinkId s"
    and tl: "\<forall>t. deps (subH s a) = Some t \<longrightarrow> t \<notin> set ls"
  shows "\<exists>s'. track_new e d a s = Some (Normal (nextLinkId s), s') \<and>
           flags (subH s' c) = flags (subH s c) OR (TRACKING e OR DIRTY e) \<and>
           all_attached s' (insert (nextLinkId s) (set ls)) \<and>
           (\<forall>x\<in>set ls. dep (linkH s' x) = dep (linkH s x)) \<and>
           dep (linkH s' (nextLinkId s)) = d \<and>
           onTrack (subH s' a) = onTrack (subH s a)"
proof -
  define n where "n = nextLinkId s"
  define s1 where "s1 = new_link d a s"
  define s2 where "s2 = upd_dep d (\<lambda>x. x\<lparr>activeLink := Some n\<rparr>) s1"
  define s3 where "s3 = (case deps (subH s2 a) of
                  Some t \<Rightarrow> upd_link t (\<lambda>x. x\<lparr>nextDep := Some n\<rparr>) s2
                | None \<Rightarrow> s2)"
  define s4 where "s4 = upd_sub a (\<lambda>x. x\<lparr>deps := Some n\<rparr>) s3"
  define s5 where "s5 = upd_sub c (\<lambda>x. x\<lparr>flags := flags x OR (TRACKING e OR DIRTY e)\<rparr>) s4"
  have sub4: "subH s4 = (subH s)(a := (subH s a)\<lparr>deps := Some n\<rparr>)"
    by (simp add: s4_def s3_def s2_def s1_def new_link_def upd_dep_def upd_link_def upd_sub_def
        split: option.splits)
  have dep4: "depH s4 = (depH s)(d := (depH s d)\<lparr>activeLink := Some n\<rparr>)"
    by (simp add: s4_def s3_def s2_def s1_def new_link_def upd_dep_def upd_link_def upd_sub_def
        split: option.splits)
  have tn: "track_new e d a s =
      (case addSub_loop (deps (subH s5 c)) s5 of None \<Rightarrow> None
       | Some s6 \<Rightarrow> Some (Normal n, addSub n s6))"
    using cp nos tr sub4 dep4
    unfolding track_new_def Let_def n_def [symmetric] s1_def [symmetric] s2_def [symmetric]
      s3_def [symmetric] s4_def [symmetric]
    by (simp add: s5_def)
  have nx: "\<And>x. x \<in> set ls \<Longrightarrow> nextDep (linkH s5 x) = nextDep (linkH s x)"
    using al tl
    by (auto simp: s5_def s4_def s3_def s2_def s1_def n_def new_link_def upd_dep_def upd_link_def
        upd_sub_def split: option.splits)
  have dx: "\<And>x. x \<in> set ls \<Longrightarrow> dep (linkH s5 x) = dep (linkH s x)"
    using al
    by (auto simp: s5_def s4_def s3_def s2_def s1_def n_def new_link_def upd_dep_def upd_link_def
        upd_sub_def split: option.splits)
  have dn: "dep (linkH s5 n) = d"
    by (auto simp: s5_def s4_def s3_def s2_def s1_def n_def new_link_def upd_dep_def upd_link_def
        upd_sub_def split: option.splits)
  have dc: "deps (subH s5 c) = deps (subH s c)"
    using ac by (simp add: s5_def upd_sub_def sub4)
  have ch5: "chain (\<lambda>x. nextDep (linkH s5 x)) (deps (subH s5 c)) ls"
    using ch nx chain_cong [of ls "\<lambda>x. nextDep (linkH s5 x)" "\<lambda>x. nextDep (linkH s x)"]
    by (simp add: dc)
  have e0: "all_attached s5 {}" by (simp add: all_attached_def)
  from addSub_loop_attaches [OF ch5 e0] obtain s6 where
    l6: "addSub_loop (deps (subH s5 c)) s5 = Some s6" and a6: "all_attached s6 (set ls)"
    and h6: "subH s6 = subH s5" and d6: "\<forall>z. dep (linkH s6 z) = dep (linkH s5 z)" by auto
  have nn: "n \<notin> set ls" using al by (auto simp: n_def)
  from addSub_all_attached [OF nn a6] have a7: "all_attached (addSub n s6) (insert n (set ls))" .
  have fl: "flags (subH (addSub n s6) c) = flags (subH s c) OR (TRACKING e OR DIRTY e)"
    using ac by (simp add: h6 s5_def upd_sub_def sub4)
  have d7: "\<forall>x\<in>set ls. dep (linkH (addSub n s6) x) = dep (linkH s x)"
    using d6 dx by simp
  have d8: "dep (linkH (addSub n s6) n) = d" using d6 dn by simp
  have ot: "onTrack (subH (addSub n s6) a) = onTrack (subH s a)"
    using ac by (simp add: h6 s5_def upd_sub_def sub4)
  from tn l6 a7 fl d7 d8 ot show ?thesis by (simp add: n_def)
qed

lemma word_or_and_absorb:
  "((w::32 word) OR (t OR u)) AND t = t \<and> (w OR (t OR u)) AND u = u"
  by (auto simp: bit_eq_iff bit_and_iff bit_or_iff)

text \<open>
  C4. The dep \<open>d\<close> of a computed \<open>c\<close> has no subscriber, the active subscriber \<open>a\<close> is
  tracking and \<open>d\<close> has no \<^verbatim>\<open>activeLink\<close> of \<open>a\<close>, so that \<^verbatim>\<open>Dep.track\<close> makes a new link.
  The computed is not \<open>a\<close> itself; the links \<open>ls\<close> met from \<^verbatim>\<open>c.deps\<close> along \<^verbatim>\<open>nextDep\<close>
  exist and the tail of the list of \<open>a\<close> is none of them. Then \<^verbatim>\<open>Dep.track\<close> reaches its
  debug hook with the new link, in a state \<open>s'\<close> where the flags of \<open>c\<close> are the former
  ones with \<^verbatim>\<open>TRACKING\<close> and \<^verbatim>\<open>DIRTY\<close> set, and every link of \<open>ls\<close>, and the new link, is in
  the subscriber list of its dep. The state \<open>s'\<close> is the same in every environment
  with these two flag values: no function of the environment (a getter least of all)
  is run to reach it.
\<close>

theorem Dep_track_first_subscriber_activates_computed:
  assumes "activeSub s = Some a" and "shouldTrack s"
    and "computed (depH s d) = Some c" and "subs (depH s d) = None"
    and "flags (subH s a) AND TRACKING e \<noteq> 0"
    and "\<forall>l. activeLink (depH s d) = Some l \<longrightarrow> sub (linkH s l) \<noteq> a"
    and "a \<noteq> c"
    and "chain (\<lambda>x. nextDep (linkH s x)) (deps (subH s c)) ls"
    and "\<forall>x\<in>set ls. x < nextLinkId s"
    and "\<forall>t. deps (subH s a) = Some t \<longrightarrow> t \<notin> set ls"
  shows "\<exists>s'. Dep_track e debugInfo d s =
                Some (if DEV e \<and> onTrack (subH s a) \<noteq> None
                      then track_hook e debugInfo a (nextLinkId s) s'
                      else (Normal (Some (nextLinkId s)), s')) \<and>
           flags (subH s' c) = flags (subH s c) OR (TRACKING e OR DIRTY e) \<and>
           flags (subH s' c) AND TRACKING e = TRACKING e \<and>
           flags (subH s' c) AND DIRTY e = DIRTY e \<and>
           (\<forall>x\<in>set ls. attached s' x \<and> dep (linkH s' x) = dep (linkH s x)) \<and>
           attached s' (nextLinkId s) \<and> dep (linkH s' (nextLinkId s)) = d \<and>
           (\<forall>e'. TRACKING e' = TRACKING e \<and> DIRTY e' = DIRTY e \<longrightarrow>
              Dep_track e' debugInfo d s = Some (track_hook e' debugInfo a (nextLinkId s) s'))"
proof -
  from track_new_promotes [OF assms(3,4,5,7,8,9,10)] obtain s' where
    tn: "track_new e d a s = Some (Normal (nextLinkId s), s')"
    and fl: "flags (subH s' c) = flags (subH s c) OR (TRACKING e OR DIRTY e)"
    and at: "all_attached s' (insert (nextLinkId s) (set ls))"
    and dp: "\<forall>x\<in>set ls. dep (linkH s' x) = dep (linkH s x)" "dep (linkH s' (nextLinkId s)) = d"
    and ot: "onTrack (subH s' a) = onTrack (subH s a)"
    by blast
  have tl: "\<And>e'. track_link e' d a s = track_new e' d a s"
    using assms(6) by (auto simp: track_link_def split: option.splits)
  have dt: "Dep_track e' debugInfo d s = Some (track_hook e' debugInfo a (nextLinkId s) s')"
    if "TRACKING e' = TRACKING e" and "DIRTY e' = DIRTY e" for e'
  proof -
    from that have "track_new e' d a s = track_new e d a s" by (rule track_new_env)
    with tn have "track_link e' d a s = Some (Normal (nextLinkId s), s')" by (simp add: tl)
    with assms(1,2) show ?thesis by (simp add: Dep_track_def)
  qed
  have a1: "\<forall>x\<in>set ls. attached s' x \<and> dep (linkH s' x) = dep (linkH s x)"
    using at dp(1) by (auto intro: all_attached_attached)
  have a2: "attached s' (nextLinkId s)"
    using at by (auto intro: all_attached_attached)
  from fl have f1: "flags (subH s' c) AND TRACKING e = TRACKING e"
    and f2: "flags (subH s' c) AND DIRTY e = DIRTY e"
    using word_or_and_absorb [of "flags (subH s c)" "TRACKING e" "DIRTY e"] by simp_all
  have "Dep_track e debugInfo d s = Some (track_hook e debugInfo a (nextLinkId s) s')"
    by (rule dt) simp_all
  with ot have d0: "Dep_track e debugInfo d s =
                Some (if DEV e \<and> onTrack (subH s a) \<noteq> None
                      then track_hook e debugInfo a (nextLinkId s) s'
                      else (Normal (Some (nextLinkId s)), s'))"
    by (auto simp: track_hook_def)
  have d1: "\<forall>e'. TRACKING e' = TRACKING e \<and> DIRTY e' = DIRTY e \<longrightarrow>
              Dep_track e' debugInfo d s = Some (track_hook e' debugInfo a (nextLinkId s) s')"
    using dt by blast
  show ?thesis
    by (intro exI [of _ s'] conjI) (fact d0 fl f1 f2 a1 a2 dp(2) d1)+
qed

theorem Dep_track_first_subscriber_activates_computed_witness:
  "\<exists>s'. Dep_track env_prod None 0 state_first_read = Some (Normal (Some 41), s') \<and>
        flags (subH state_first_read 2) = 0 \<and> flags (subH s' 2) = 20 \<and>
        attached s' 20 \<and> attached s' 21 \<and> attached s' 41"
proof -
  have h: "activeSub state_first_read = Some 1" "shouldTrack state_first_read"
    "computed (depH state_first_read 0) = Some 2" "subs (depH state_first_read 0) = None"
    by (simp_all add: state_first_read_def state_empty_def dep_empty_def)
  have t: "flags (subH state_first_read 1) AND TRACKING env_prod \<noteq> 0"
    by (simp add: state_first_read_def state_empty_def sub_empty_def env_prod_def)
  have n: "\<forall>l. activeLink (depH state_first_read 0) = Some l \<longrightarrow>
             sub (linkH state_first_read l) \<noteq> 1"
    by (simp add: state_first_read_def state_empty_def dep_empty_def)
  have ac: "(1::nat) \<noteq> 2" by simp
  have c: "chain (\<lambda>x. nextDep (linkH state_first_read x)) (deps (subH state_first_read 2)) [20, 21]"
    by (simp add: state_first_read_def state_empty_def link_empty_def sub_empty_def)
  have al: "\<forall>x\<in>set [20, 21]. x < nextLinkId state_first_read"
    by (simp add: state_first_read_def)
  have tl: "\<forall>t. deps (subH state_first_read 1) = Some t \<longrightarrow> t \<notin> set [20, 21]"
    by (simp add: state_first_read_def state_empty_def sub_empty_def)
  have k: "\<not> DEV env_prod" by (simp add: env_prod_def)
  have f0: "flags (subH state_first_read 2) = 0" "nextLinkId state_first_read = 41"
    "TRACKING env_prod = 4" "DIRTY env_prod = 16"
    by (simp_all add: state_first_read_def state_empty_def sub_empty_def env_prod_def)
  from Dep_track_first_subscriber_activates_computed [OF h t n ac c al tl, of None]
  obtain s' where
    "Dep_track env_prod None 0 state_first_read
       = Some (if DEV env_prod \<and> onTrack (subH state_first_read 1) \<noteq> None
               then track_hook env_prod None 1 (nextLinkId state_first_read) s'
               else (Normal (Some (nextLinkId state_first_read)), s'))"
    "flags (subH s' 2) = flags (subH state_first_read 2) OR (TRACKING env_prod OR DIRTY env_prod)"
    "\<forall>x\<in>set [20, 21]. attached s' x \<and> dep (linkH s' x) = dep (linkH state_first_read x)"
    "attached s' (nextLinkId state_first_read)"
    by blast
  then have "Dep_track env_prod None 0 state_first_read = Some (Normal (Some 41), s') \<and>
        flags (subH state_first_read 2) = 0 \<and> flags (subH s' 2) = 20 \<and>
        attached s' 20 \<and> attached s' 21 \<and> attached s' 41"
    by (simp add: k f0)
  then show ?thesis by blast
qed

text \<open>
  In \<open>state_stale\<close> the dep 0 of the computed 2 has no subscriber and the active effect 1
  is tracking, but the \<^verbatim>\<open>activeLink\<close> of dep 0 is a link of the effect, in sync:
  \<^verbatim>\<open>Dep.track\<close> returns that link and changes nothing. The flags of the computed stay 0
  and its link 21 stays outside the subscriber list of its dep.
\<close>

theorem Dep_track_first_subscriber_counterexample:
  "activeSub state_stale = Some 1 \<and> shouldTrack state_stale \<and>
   computed (depH state_stale 0) = Some 2 \<and> subs (depH state_stale 0) = None \<and>
   flags (subH state_stale 1) AND TRACKING env_prod = TRACKING env_prod \<and>
   TRACKING env_prod = 4 \<and>
   Dep_track env_prod None 0 state_stale = Some (Normal (Some 30), state_stale) \<and>
   flags (subH state_stale 2) = 0 \<and>
   chain (\<lambda>x. nextDep (linkH state_stale x)) (deps (subH state_stale 2)) [20, 21] \<and>
   \<not> attached state_stale 21"
proof -
  have "\<not> reach_in state_stale UNIV None 21"
    by (auto elim: reach_in.cases)
  then have "\<not> attached state_stale 21"
    by (simp add: attached_def state_stale_def state_first_read_def state_empty_def
        link_empty_def dep_empty_def)
  moreover have "Dep_track env_prod None 0 state_stale = Some (Normal (Some 30), state_stale)"
    by (simp add: Dep_track_def track_link_def track_hook_def env_prod_def state_stale_def
        state_first_read_def state_empty_def link_empty_def)
  ultimately show ?thesis
    by (simp add: env_prod_def state_stale_def state_first_read_def state_empty_def
        link_empty_def dep_empty_def sub_empty_def)
qed

section \<open>trigger\<close>

text \<open>
  The early return of \<^verbatim>\<open>trigger\<close> for a target that was never tracked does increment
  the global version.
\<close>

lemma trigger_untracked_bumps_globalVersion:
  assumes "targetMap s tgt = None"
  shows "trigger e tgt ty key newValue oldValue oldTarget s =
           Some (Normal (), s\<lparr>globalVersion := globalVersion s + 1\<rparr>)"
  using assms by (simp add: trigger_def)

text \<open>
  C3. The object 7 has been tracked at key \<^verbatim>\<open>a\<close> only. A \<^verbatim>\<open>SET\<close> of its key \<^verbatim>\<open>b\<close> finds the
  map of the target, collects no dep and returns with the whole state, and so the
  global version, as it was (here the batch functions do nothing).
\<close>

theorem trigger_unmatched_key_keeps_globalVersion:
  "targetMap state_obj (Target 7 PlainObject) = Some [(Str ''a'', 0)] \<and>
   trigger env_prod (Target 7 PlainObject) SET (Str ''b'') (Num (Fin 1)) Undefined None state_obj
     = Some (Normal (), state_obj) \<and>
   globalVersion state_obj = 0"
  by (simp add: trigger_def collect_deps_def push_def isArray_def isMap_def run_triggers_def
      env_prod_def noop_def state_obj_def state_idle_def state_in_computed_def state_empty_def)

text \<open>
  With the operation type \<^verbatim>\<open>CLEAR\<close> the first branch of \<^verbatim>\<open>trigger\<close> is taken, which reads
  neither the key nor the new value and triggers every dep of the target: clearing
  a collection is a case of its own and not a write of \<^verbatim>\<open>length\<close>.
\<close>

lemma trigger_clear_triggers_every_dep:
  "trigger env_prod (Target 8 ArrayObject) CLEAR (Str ''length'') (Num (Fin 1)) Undefined None
     state_array
   = Some (Normal (),
       state_array\<lparr>depH := (depH state_array)
           (3 := \<lparr>dep_version = 1, activeLink = None, subs = None, computed = None\<rparr>,
            4 := \<lparr>dep_version = 1, activeLink = None, subs = None, computed = None\<rparr>,
            5 := \<lparr>dep_version = 1, activeLink = None, subs = None, computed = None\<rparr>,
            6 := \<lparr>dep_version = 1, activeLink = None, subs = None, computed = None\<rparr>),
         globalVersion := 4\<rparr>)"
  by (simp add: trigger_def collect_deps_def trigger_info_def isArray_def ToNumber_def
      run_triggers_def Dep_trigger_def Dep_notify_def notify_loop_None upd_dep_def
      env_prod_def noop_def index_num_def state_array_def state_empty_def dep_empty_def)

text \<open>
  C5. A write of \<^verbatim>\<open>length\<close> on an array (a \<^verbatim>\<open>trigger\<close> with key \<^verbatim>\<open>length\<close> whose type is
  not the clearing of a collection) with a new value whose number is \<open>n\<close> runs
  \<^verbatim>\<open>Dep.trigger\<close>, inside a batch and in the order of the registry, on exactly the deps
  of the target whose key is \<^verbatim>\<open>length\<close> or is no symbol and \<^verbatim>\<open>>= n\<close> (none when the array
  was never tracked). In numbers: the dep of \<^verbatim>\<open>length\<close> is among them; the dep of a key
  whose number is \<open>n\<close> or more is among them; the dep of a key other than \<^verbatim>\<open>length\<close>
  whose number is below \<open>n\<close>, and the dep of a symbol, is not (each key has its own
  dep).
\<close>

theorem trigger_length_hits_out_of_range_indices:
  assumes "isArray tgt" and "ty \<noteq> CLEAR" and "ToNumber (str_num e) newValue = Inr n"
  shows "trigger e tgt ty (Str ''length'') newValue oldValue oldTarget s =
           (case targetMap s tgt of
              None \<Rightarrow> Some (Normal (), s\<lparr>globalVersion := globalVersion s + 1\<rparr>)
            | Some m \<Rightarrow>
                run_triggers e (trigger_info e tgt ty (Str ''length'') newValue oldValue oldTarget)
                  (map snd (filter (\<lambda>kd. fst kd = Str ''length'' \<or>
                                          (\<not> isSymbol (fst kd) \<and> key_ge e (fst kd) n)) m)) s) \<and>
         (\<forall>m k d i j. targetMap s tgt = Some m \<and> distinct (map snd m) \<and> (k, d) \<in> set m \<and>
               k \<noteq> Str ''length'' \<and> ToNumber (str_num e) k = Inr (Fin i) \<and> n = Fin j \<and> i < j
            \<longrightarrow> d \<notin> set (map snd (filter (\<lambda>kd. fst kd = Str ''length'' \<or>
                                          (\<not> isSymbol (fst kd) \<and> key_ge e (fst kd) n)) m))) \<and>
         (\<forall>m k d i j. targetMap s tgt = Some m \<and> (k, d) \<in> set m \<and>
               ToNumber (str_num e) k = Inr (Fin i) \<and> n = Fin j \<and> j \<le> i
            \<longrightarrow> d \<in> set (map snd (filter (\<lambda>kd. fst kd = Str ''length'' \<or>
                                          (\<not> isSymbol (fst kd) \<and> key_ge e (fst kd) n)) m))) \<and>
         (\<forall>m d. targetMap s tgt = Some m \<and> (Str ''length'', d) \<in> set m
            \<longrightarrow> d \<in> set (map snd (filter (\<lambda>kd. fst kd = Str ''length'' \<or>
                                          (\<not> isSymbol (fst kd) \<and> key_ge e (fst kd) n)) m))) \<and>
         (\<forall>m y d. targetMap s tgt = Some m \<and> distinct (map snd m) \<and> (Sym y, d) \<in> set m
            \<longrightarrow> d \<notin> set (map snd (filter (\<lambda>kd. fst kd = Str ''length'' \<or>
                                          (\<not> isSymbol (fst kd) \<and> key_ge e (fst kd) n)) m)))"
proof -
  let ?hit = "\<lambda>kd :: jsval \<times> nat. fst kd = Str ''length'' \<or> (\<not> isSymbol (fst kd) \<and> key_ge e (fst kd) n)"
  have own: "k' = k"
    if "distinct (map snd m)" and "(k, d) \<in> set m" and "(k', d) \<in> set m" for m :: "(jsval \<times> nat) list" and k k' d
  proof -
    from that(1) have "inj_on snd (set m)" by (simp add: distinct_map)
    from inj_onD [OF this, of "(k', d)" "(k, d)"] that(2,3) show ?thesis by simp
  qed
  have out: "d \<notin> set (map snd (filter ?hit m))"
    if "distinct (map snd m)" and "(k, d) \<in> set m" and "\<not> ?hit (k, d)"
    for m :: "(jsval \<times> nat) list" and k d
  proof
    assume "d \<in> set (map snd (filter ?hit m))"
    then obtain k' where k': "(k', d) \<in> set m" and hit: "?hit (k', d)" by auto
    from that(1,2) k' have "k' = k" by (rule own)
    with hit that(3) show False by simp
  qed
  have inn: "d \<in> set (map snd (filter ?hit m))" if "(k, d) \<in> set m" and "?hit (k, d)"
    for m :: "(jsval \<times> nat) list" and k d
    using that by force
  have c1: "trigger e tgt ty (Str ''length'') newValue oldValue oldTarget s =
           (case targetMap s tgt of
              None \<Rightarrow> Some (Normal (), s\<lparr>globalVersion := globalVersion s + 1\<rparr>)
            | Some m \<Rightarrow>
                run_triggers e (trigger_info e tgt ty (Str ''length'') newValue oldValue oldTarget)
                  (map snd (filter ?hit m)) s)"
    using assms
    by (simp add: trigger_def collect_deps_def length_hit_def split: option.splits)
  have c2: "\<forall>m k d i j. targetMap s tgt = Some m \<and> distinct (map snd m) \<and> (k, d) \<in> set m \<and>
               k \<noteq> Str ''length'' \<and> ToNumber (str_num e) k = Inr (Fin i) \<and> n = Fin j \<and> i < j
            \<longrightarrow> d \<notin> set (map snd (filter ?hit m))"
  proof (intro allI impI, elim conjE)
    fix m :: "(jsval \<times> nat) list" and k d i j
    assume "distinct (map snd m)" and "(k, d) \<in> set m" and "k \<noteq> Str ''length''"
      and "ToNumber (str_num e) k = Inr (Fin i)" and "n = Fin j" and "i < j"
    then show "d \<notin> set (map snd (filter ?hit m))"
      by (intro out [of m k d]) (simp_all add: key_ge_def)
  qed
  have c3: "\<forall>m k d i j. targetMap s tgt = Some m \<and> (k, d) \<in> set m \<and>
               ToNumber (str_num e) k = Inr (Fin i) \<and> n = Fin j \<and> j \<le> i
            \<longrightarrow> d \<in> set (map snd (filter ?hit m))"
  proof (intro allI impI, elim conjE)
    fix m :: "(jsval \<times> nat) list" and k d i j
    assume kd: "(k, d) \<in> set m" and tk: "ToNumber (str_num e) k = Inr (Fin i)"
      and nj: "n = Fin j" and ji: "j \<le> i"
    from tk have "\<not> isSymbol k" by (auto simp: ToNumber_def isSymbol_def split: jsval.splits)
    with tk nj ji have "?hit (k, d)" by (simp add: key_ge_def)
    with kd show "d \<in> set (map snd (filter ?hit m))" by (rule inn)
  qed
  have c4: "\<forall>m d. targetMap s tgt = Some m \<and> (Str ''length'', d) \<in> set m
            \<longrightarrow> d \<in> set (map snd (filter ?hit m))"
  proof (intro allI impI, elim conjE)
    fix m :: "(jsval \<times> nat) list" and d
    assume "(Str ''length'', d) \<in> set m"
    then show "d \<in> set (map snd (filter ?hit m))"
      by (rule inn) simp
  qed
  have c5: "\<forall>m y d. targetMap s tgt = Some m \<and> distinct (map snd m) \<and> (Sym y, d) \<in> set m
            \<longrightarrow> d \<notin> set (map snd (filter ?hit m))"
  proof (intro allI impI, elim conjE)
    fix m :: "(jsval \<times> nat) list" and y d
    assume "distinct (map snd m)" and "(Sym y, d) \<in> set m"
    then show "d \<notin> set (map snd (filter ?hit m))"
      by (intro out [of m "Sym y" d]) (simp_all add: isSymbol_def)
  qed
  from c1 c2 c3 c4 c5 show ?thesis by (intro conjI)
qed

text \<open>
  The array 8 shrinks to length 2: the deps of \<^verbatim>\<open>length\<close> and of index 2 are triggered,
  index 2 being just out of range; the deps of index 0 and of the symbol are not.
\<close>

theorem trigger_length_hits_out_of_range_indices_witness:
  "trigger env_prod (Target 8 ArrayObject) SET (Str ''length'') (Num (Fin 2)) Undefined None
     state_array
   = run_triggers env_prod None [4, 5] state_array \<and>
   run_triggers env_prod None [4, 5] state_array
   = Some (Normal (),
       state_array\<lparr>depH := (depH state_array)
           (4 := \<lparr>dep_version = 1, activeLink = None, subs = None, computed = None\<rparr>,
            5 := \<lparr>dep_version = 1, activeLink = None, subs = None, computed = None\<rparr>),
         globalVersion := 2\<rparr>) \<and>
   (3::nat) \<notin> set [4, 5] \<and> (6::nat) \<notin> set [4, 5]"
proof -
  have a: "isArray (Target 8 ArrayObject)" by (simp add: isArray_def)
  have b: "SET \<noteq> CLEAR" by simp
  have c: "ToNumber (str_num env_prod) (Num (Fin 2)) = Inr (Fin 2)" by (simp add: ToNumber_def)
  have m: "targetMap state_array (Target 8 ArrayObject) =
             Some [(Str ''0'', 3), (Str ''length'', 4), (Str ''2'', 5), (Sym 9, 6)]"
    by (simp add: state_array_def)
  have k: "\<not> key_ge env_prod (Str ''0'') (Fin 2)" "key_ge env_prod (Str ''2'') (Fin 2)"
    by (simp_all add: key_ge_def ToNumber_def env_prod_def index_num_def)
  have i: "trigger_info env_prod (Target 8 ArrayObject) SET (Str ''length'') (Num (Fin 2))
             Undefined None = None"
    by (simp add: trigger_info_def env_prod_def)
  have r: "run_triggers env_prod None [4, 5] state_array
     = Some (Normal (),
       state_array\<lparr>depH := (depH state_array)
           (4 := \<lparr>dep_version = 1, activeLink = None, subs = None, computed = None\<rparr>,
            5 := \<lparr>dep_version = 1, activeLink = None, subs = None, computed = None\<rparr>),
         globalVersion := 2\<rparr>)"
    by (simp add: run_triggers_def Dep_trigger_def Dep_notify_def notify_loop_None upd_dep_def
        env_prod_def noop_def state_array_def state_empty_def dep_empty_def)
  from trigger_length_hits_out_of_range_indices
    [OF a b c, of Undefined None state_array]
  have "trigger env_prod (Target 8 ArrayObject) SET (Str ''length'') (Num (Fin 2)) Undefined None
          state_array
        = run_triggers env_prod None [4, 5] state_array"
    by (simp add: m k i isSymbol_def)
  with r show ?thesis by simp
qed

end
